theory Spec2Isabelle
  imports Main "HOL-Library.Sublist"
begin

section \<open>Strings and character classes\<close>

text \<open>
  A JavaScript string is modelled as a \<open>string\<close>: the list of its code units, a
  \<open>char\<close> standing for one code unit (the model covers the units below 256).
  The regular expressions of the sources use three classes: \<^verbatim>\<open>\w\<close> (ASCII letters,
  digits and the underscore), \<^verbatim>\<open>\s\<close> (tab, line feed, vertical tab, form feed,
  carriage return, space and the no-break space 160; the same set that
  \<^verbatim>\<open>String.prototype.trim\<close> removes) and their complements. The proofs below use the
  classes through these predicates only; which characters a class holds matters for the
  evaluations at concrete inputs alone.
\<close>

definition is_word :: "char \<Rightarrow> bool" where
  "is_word c =
     (let n = (of_char c :: nat)
      in (48 \<le> n \<and> n \<le> 57) \<or> (65 \<le> n \<and> n \<le> 90) \<or> n = 95 \<or> (97 \<le> n \<and> n \<le> 122))"

definition is_space :: "char \<Rightarrow> bool" where
  "is_space c = ((of_char c :: nat) \<in> {9, 10, 11, 12, 13, 32, 160})"

definition is_quote :: "char \<Rightarrow> bool" where
  "is_quote c = (c = CHR 0x27 \<or> c = CHR 0x22)"

definition is_punct :: "char \<Rightarrow> bool" where
  "is_punct c = (\<not> is_word c \<and> \<not> is_space c \<and> c \<noteq> CHR ''<'' \<and> c \<noteq> CHR ''>'')"

section \<open>The tokenizer of merged\_view.js and compare\_view.js\<close>

text \<open>
  \<^verbatim>\<open>const re = /(<[^>]+>)|(\w+(?:=['"][^'"]*['"])?)|(\s+)|([^\w\s<>]+)/g;
  return str.match(re) || [];\<close>

  Each \<open>match_\<close> function is one alternative of the expression tried at the head of the
  remaining input; it returns the matched token and what follows it. The alternatives are
  tried in their order, the quantifiers are greedy, and giving characters back never
  helps here: a tag is \<^verbatim>\<open><\<close>, one or more characters other than \<^verbatim>\<open>>\<close>, and \<^verbatim>\<open>>\<close>; a word
  is a longest run of word characters, followed by \<^verbatim>\<open>=\<close>, a quote, characters that are not
  quotes and a quote (either one) when all of that is there. \<open>tokenize\<close> is the global
  match: the next token starts at the first position where an alternative matches, and a
  position where none matches is passed over. No match is empty, so the filter for empty
  tokens in compare\_view.js (\<^verbatim>\<open>tokens.filter(token => token)\<close>) removes nothing.
\<close>

definition match_tag :: "string \<Rightarrow> (string \<times> string) option" where
  "match_tag s =
     (case s of
        [] \<Rightarrow> None
      | c # r \<Rightarrow>
          if c \<noteq> CHR ''<'' then None
          else
            (let body = takeWhile (\<lambda>x. x \<noteq> CHR ''>'') r
             in if body = [] then None
                else
                  (case dropWhile (\<lambda>x. x \<noteq> CHR ''>'') r of
                     [] \<Rightarrow> None
                   | g # rest \<Rightarrow> Some (c # body @ [g], rest))))"

definition match_attr_value :: "string \<Rightarrow> (string \<times> string) option" where
  "match_attr_value r =
     (case r of
        e # q # r2 \<Rightarrow>
          if e = CHR ''='' \<and> is_quote q then
            (case dropWhile (\<lambda>x. \<not> is_quote x) r2 of
               [] \<Rightarrow> None
             | q2 # rest \<Rightarrow> Some (e # q # takeWhile (\<lambda>x. \<not> is_quote x) r2 @ [q2], rest))
          else None
      | _ \<Rightarrow> None)"

definition match_word :: "string \<Rightarrow> (string \<times> string) option" where
  "match_word s =
     (let w = takeWhile is_word s; r = dropWhile is_word s
      in if w = [] then None
         else
           (case match_attr_value r of
              Some (v, rest) \<Rightarrow> Some (w @ v, rest)
            | None \<Rightarrow> Some (w, r)))"

definition match_run :: "(char \<Rightarrow> bool) \<Rightarrow> string \<Rightarrow> (string \<times> string) option" where
  "match_run p s =
     (let w = takeWhile p s in if w = [] then None else Some (w, dropWhile p s))"

definition match_token :: "string \<Rightarrow> (string \<times> string) option" where
  "match_token s =
     (case match_tag s of
        Some t \<Rightarrow> Some t
      | None \<Rightarrow>
          (case match_word s of
             Some t \<Rightarrow> Some t
           | None \<Rightarrow>
               (case match_run is_space s of
                  Some t \<Rightarrow> Some t
                | None \<Rightarrow> match_run is_punct s)))"

lemma match_tag_split: "match_tag s = Some (tok, rest) \<Longrightarrow> s = tok @ rest \<and> tok \<noteq> []"
  unfolding match_tag_def
  by (auto split: list.splits if_splits simp: Let_def)
     (metis append_Cons append_Nil append_assoc takeWhile_dropWhile_id)

lemma match_attr_value_split: "match_attr_value r = Some (v, rest) \<Longrightarrow> r = v @ rest"
  unfolding match_attr_value_def
  by (auto split: list.splits if_splits)
     (metis append_Cons append_Nil append_assoc takeWhile_dropWhile_id)

lemma match_word_split: "match_word s = Some (tok, rest) \<Longrightarrow> s = tok @ rest \<and> tok \<noteq> []"
  unfolding match_word_def
  by (auto split: option.splits if_splits simp: Let_def dest!: match_attr_value_split)
     (metis append_assoc takeWhile_dropWhile_id)

lemma match_run_split: "match_run p s = Some (tok, rest) \<Longrightarrow> s = tok @ rest \<and> tok \<noteq> []"
  unfolding match_run_def by (auto simp: Let_def split: if_splits)

lemma match_token_split: "match_token s = Some (tok, rest) \<Longrightarrow> s = tok @ rest \<and> tok \<noteq> []"
  unfolding match_token_def
  by (auto split: option.splits dest: match_tag_split match_word_split match_run_split)

lemma match_token_shorter: "match_token s = Some (tok, rest) \<Longrightarrow> length rest < length s"
  by (drule match_token_split) auto

function tokenize :: "string \<Rightarrow> string list" where
  "tokenize s =
     (if s = [] then []
      else
        (case match_token s of
           Some (tok, rest) \<Rightarrow> tok # tokenize rest
         | None \<Rightarrow> tokenize (tl s)))"
  by pat_completeness auto
termination
  by (relation "measure length") (auto dest: match_token_shorter)

declare tokenize.simps [simp del]

section \<open>The tag-aware tokenizer of the merged page view\<close>

text \<open>
  \<^verbatim>\<open>function getTagName(tag) {
    const match = tag.match(/<\/?(\w+)/);
    return match ? match[1].toLowerCase() : null;
  }\<close>

  The search takes the first \<^verbatim>\<open><\<close> that is followed, after an optional slash, by a word
  character; \<open>name_after\<close> is the group matched right after a \<^verbatim>\<open><\<close>. The group holds
  word characters only, so lower-casing moves the letters A to Z and nothing else.
\<close>

definition toLowerCase_char :: "char \<Rightarrow> char" where
  "toLowerCase_char c =
     (let n = (of_char c :: nat) in if 65 \<le> n \<and> n \<le> 90 then char_of (n + 32) else c)"

definition name_after :: "string \<Rightarrow> string" where
  "name_after r =
     (case r of
        [] \<Rightarrow> []
      | d # r2 \<Rightarrow> if d = CHR ''/'' then takeWhile is_word r2 else takeWhile is_word r)"

fun getTagName :: "string \<Rightarrow> string option" where
  "getTagName [] = None"
| "getTagName (c # r) =
     (if c = CHR ''<'' \<and> name_after r \<noteq> [] then Some (map toLowerCase_char (name_after r))
      else getTagName r)"

text \<open>
  \<^verbatim>\<open>const regex = /<[^>]+>|[^<]+/g;
  while ((match = regex.exec(str)) !== null) {
    const token = match[0];
    if (token.trim()) {
      tokens.push({
        content: token,
        isTag: token.startsWith('<'),
        isClosingTag: token.startsWith('</'),
        tagName: token.startsWith('<') ? getTagName(token) : null
      });
    }
  }\<close>
\<close>

record html_token =
  content :: string
  isTag :: bool
  isClosingTag :: bool
  tagName :: "string option"

definition trim :: "string \<Rightarrow> string" where
  "trim s = rev (dropWhile is_space (rev (dropWhile is_space s)))"

definition match_html :: "string \<Rightarrow> (string \<times> string) option" where
  "match_html s =
     (case match_tag s of
        Some t \<Rightarrow> Some t
      | None \<Rightarrow> match_run (\<lambda>x. x \<noteq> CHR ''<'') s)"

definition mk_token :: "string \<Rightarrow> html_token" where
  "mk_token token =
     \<lparr>content = token,
      isTag = prefix ''<'' token,
      isClosingTag = prefix ''</'' token,
      tagName = (if prefix ''<'' token then getTagName token else None)\<rparr>"

lemma match_html_split: "match_html s = Some (tok, rest) \<Longrightarrow> s = tok @ rest \<and> tok \<noteq> []"
  unfolding match_html_def
  by (auto split: option.splits dest: match_tag_split match_run_split)

lemma match_html_shorter: "match_html s = Some (tok, rest) \<Longrightarrow> length rest < length s"
  by (drule match_html_split) auto

function tokenizeHTML :: "string \<Rightarrow> html_token list" where
  "tokenizeHTML s =
     (if s = [] then []
      else
        (case match_html s of
           Some (token, rest) \<Rightarrow>
             if trim token \<noteq> [] then mk_token token # tokenizeHTML rest
             else tokenizeHTML rest
         | None \<Rightarrow> tokenizeHTML (tl s)))"
  by pat_completeness auto
termination
  by (relation "measure length") (auto dest: match_html_shorter)

declare tokenizeHTML.simps [simp del]

section \<open>The alignment engine\<close>

text \<open>
  An operation is the pair the sources push: its kind and its payload.
  \<open>diffTokens\<close> pushes \<^verbatim>\<open>'equal'\<close>, \<^verbatim>\<open>'delete'\<close> and \<^verbatim>\<open>'insert'\<close>.
\<close>

datatype op_kind = Equal | Delete | Insert

type_synonym operation = "op_kind \<times> string"

subsection \<open>The table\<close>

text \<open>
  \<^verbatim>\<open>const dp = Array.from({ length: n + 1 }, () => new Array(m + 1).fill(0));
  for (let i = n - 1; i >= 0; i--)
    for (let j = m - 1; j >= 0; j--)
      if (A[i] === B[j]) dp[i][j] = 1 + dp[i + 1][j + 1];
      else dp[i][j] = Math.max(dp[i + 1][j], dp[i][j + 1]);\<close>

  \<open>dp A B i j\<close> is the cell \<^verbatim>\<open>dp[i][j]\<close> of the filled table: row \<open>n\<close> and column \<open>m\<close>
  keep the 0 they were created with, every other cell is computed from the cells below
  and to the right. The loops below read cells with \<open>i \<le> n\<close> and \<open>j \<le> m\<close> only.
\<close>

function dp :: "string list \<Rightarrow> string list \<Rightarrow> nat \<Rightarrow> nat \<Rightarrow> nat" where
  "dp A B i j =
     (if i < length A \<and> j < length B then
        (if A ! i = B ! j then 1 + dp A B (i + 1) (j + 1)
         else max (dp A B (i + 1) j) (dp A B i (j + 1)))
      else 0)"
  by pat_completeness auto
termination
  by (relation "measure (\<lambda>(A, B, i, j). (length A - i) + (length B - j))") auto

declare dp.simps [simp del]

subsection \<open>Backtracking in merged\_view.js\<close>

text \<open>
  \<^verbatim>\<open>while (i < n || j < m) {
    if (i < n && j < m && A[i] === B[j]) { diff.push(['equal', A[i]]); i++; j++; }
    else if (j < m && (i === n || dp[i][j + 1] >= dp[i + 1][j])) { diff.push(['insert', B[j]]); j++; }
    else if (i < n) { diff.push(['delete', A[i]]); i++; }
  }
  return diff;\<close>

  The loop has no final \<^verbatim>\<open>else\<close>: a round in which no branch applies leaves \<open>i\<close>, \<open>j\<close>
  and \<open>diff\<close> as they are, and the loop never ends. The model returns \<open>None\<close> there, and
  \<open>Some diff\<close> when the loop ends.
\<close>

function backtrack :: "string list \<Rightarrow> string list \<Rightarrow> nat \<Rightarrow> nat \<Rightarrow> operation list
    \<Rightarrow> operation list option" where
  "backtrack A B i j diff =
     (if i < length A \<or> j < length B then
        (if i < length A \<and> j < length B \<and> A ! i = B ! j then
           backtrack A B (i + 1) (j + 1) (diff @ [(Equal, A ! i)])
         else if j < length B \<and> (i = length A \<or> dp A B i (j + 1) \<ge> dp A B (i + 1) j) then
           backtrack A B i (j + 1) (diff @ [(Insert, B ! j)])
         else if i < length A then
           backtrack A B (i + 1) j (diff @ [(Delete, A ! i)])
         else None)
      else Some diff)"
  by pat_completeness auto
termination
  by (relation "measure (\<lambda>(A, B, i, j, diff). (length A - i) + (length B - j))") auto

declare backtrack.simps [simp del]

definition diffTokens_merged :: "string \<Rightarrow> string \<Rightarrow> operation list option" where
  "diffTokens_merged aStr bStr = backtrack (tokenize aStr) (tokenize bStr) 0 0 []"

subsection \<open>Backtracking with look-ahead in compare\_view.js\<close>

text \<open>
  \<^verbatim>\<open>let iEnd = i, jEnd = j;
  while (iEnd < n && jEnd < m && A[iEnd] !== B[jEnd]) {
    if (dp[iEnd+1][j] > dp[i][jEnd+1]) iEnd++; else jEnd++;
  }\<close>
\<close>

function lookahead :: "string list \<Rightarrow> string list \<Rightarrow> nat \<Rightarrow> nat \<Rightarrow> nat \<Rightarrow> nat \<Rightarrow> nat \<times> nat" where
  "lookahead A B i j iEnd jEnd =
     (if iEnd < length A \<and> jEnd < length B \<and> A ! iEnd \<noteq> B ! jEnd then
        (if dp A B (iEnd + 1) j > dp A B i (jEnd + 1) then lookahead A B i j (iEnd + 1) jEnd
         else lookahead A B i j iEnd (jEnd + 1))
      else (iEnd, jEnd))"
  by pat_completeness auto
termination
  by (relation "measure (\<lambda>(A, B, i, j, iEnd, jEnd). (length A - iEnd) + (length B - jEnd))") auto

declare lookahead.simps [simp del]

lemma lookahead_bounds:
  "lookahead A B i j iEnd jEnd = (i', j') \<Longrightarrow> iEnd \<le> i' \<and> jEnd \<le> j'"
proof (induction A B i j iEnd jEnd rule: lookahead.induct)
  case (1 A B i j iEnd jEnd)
  show ?case
  proof (cases "iEnd < length A \<and> jEnd < length B \<and> A ! iEnd \<noteq> B ! jEnd")
    case False
    with "1.prems" show ?thesis by (simp add: lookahead.simps)
  next
    case True
    show ?thesis
    proof (cases "dp A B (iEnd + 1) j > dp A B i (jEnd + 1)")
      case up: True
      with True "1.prems" have "lookahead A B i j (iEnd + 1) jEnd = (i', j')"
        by (simp add: lookahead.simps)
      with "1.IH"(1) True up show ?thesis by fastforce
    next
      case right: False
      with True "1.prems" have "lookahead A B i j iEnd (jEnd + 1) = (i', j')"
        by (simp add: lookahead.simps)
      with "1.IH"(2) True right show ?thesis by fastforce
    qed
  qed
qed

lemma lookahead_progress:
  assumes "iEnd < length A" "jEnd < length B" "A ! iEnd \<noteq> B ! jEnd"
    and "lookahead A B i j iEnd jEnd = (i', j')"
  shows "iEnd + jEnd < i' + j'"
proof (cases "dp A B (iEnd + 1) j > dp A B i (jEnd + 1)")
  case True
  with assms have "lookahead A B i j (iEnd + 1) jEnd = (i', j')"
    by (simp add: lookahead.simps)
  then show ?thesis by (auto dest: lookahead_bounds)
next
  case False
  with assms have "lookahead A B i j iEnd (jEnd + 1) = (i', j')"
    by (simp add: lookahead.simps)
  then show ?thesis by (auto dest: lookahead_bounds)
qed

lemma lookahead_in_table:
  "iEnd \<le> length A \<Longrightarrow> jEnd \<le> length B \<Longrightarrow> lookahead A B i j iEnd jEnd = (i', j')
   \<Longrightarrow> i' \<le> length A \<and> j' \<le> length B"
proof (induction A B i j iEnd jEnd rule: lookahead.induct)
  case (1 A B i j iEnd jEnd)
  show ?case
  proof (cases "iEnd < length A \<and> jEnd < length B \<and> A ! iEnd \<noteq> B ! jEnd")
    case False
    with "1.prems" show ?thesis by (simp add: lookahead.simps)
  next
    case True
    show ?thesis
    proof (cases "dp A B (iEnd + 1) j > dp A B i (jEnd + 1)")
      case up: True
      with True "1.prems" have "lookahead A B i j (iEnd + 1) jEnd = (i', j')"
        by (simp add: lookahead.simps)
      with "1.IH"(1) True up show ?thesis by fastforce
    next
      case right: False
      with True "1.prems" have "lookahead A B i j iEnd (jEnd + 1) = (i', j')"
        by (simp add: lookahead.simps)
      with "1.IH"(2) True right show ?thesis by fastforce
    qed
  qed
qed

text \<open>
  \<^verbatim>\<open>while (i < n && j < m) {
    if (A[i] === B[j]) { diff.push(['equal', A[i]]); i++; j++; }
    else {
      (the look-ahead)
      const deleted = A.slice(i, iEnd).join('');
      const added = B.slice(j, jEnd).join('');
      if (deleted) diff.push(['delete', deleted]);
      if (added) diff.push(['insert', added]);
      i = iEnd; j = jEnd;
    }
  }
  if (i < n) diff.push(['delete', A.slice(i).join('')]);
  if (j < m) diff.push(['insert', B.slice(j).join('')]);
  return diff;\<close>
\<close>

definition slice :: "'a list \<Rightarrow> nat \<Rightarrow> nat \<Rightarrow> 'a list" where
  "slice xs b e = take (e - b) (drop b xs)"

definition push_if :: "operation list \<Rightarrow> op_kind \<Rightarrow> string \<Rightarrow> operation list" where
  "push_if diff k payload = (if payload \<noteq> [] then diff @ [(k, payload)] else diff)"

function backtrack_blocks :: "string list \<Rightarrow> string list \<Rightarrow> nat \<Rightarrow> nat \<Rightarrow> operation list
    \<Rightarrow> operation list" where
  "backtrack_blocks A B i j diff =
     (if i < length A \<and> j < length B then
        (if A ! i = B ! j then backtrack_blocks A B (i + 1) (j + 1) (diff @ [(Equal, A ! i)])
         else
           (case lookahead A B i j i j of
              (iEnd, jEnd) \<Rightarrow>
                backtrack_blocks A B iEnd jEnd
                  (push_if (push_if diff Delete (concat (slice A i iEnd)))
                     Insert (concat (slice B j jEnd)))))
      else
        (let diff1 = (if i < length A then diff @ [(Delete, concat (drop i A))] else diff)
         in if j < length B then diff1 @ [(Insert, concat (drop j B))] else diff1))"
  by pat_completeness auto
termination
proof (relation "measure (\<lambda>(A, B, i, j, diff). (length A + length B) - (i + j))", goal_cases)
  case 1
  show ?case by simp
next
  case (2 A B i j diff)
  then show ?case by auto
next
  case (3 A B i j diff iEnd jEnd)
  then have la: "lookahead A B i j i j = (iEnd, jEnd)" by simp
  from 3 have ne: "i < length A" "j < length B" "A ! i \<noteq> B ! j" by auto
  from lookahead_progress[OF ne la] have "i + j < iEnd + jEnd" .
  moreover from lookahead_in_table[OF _ _ la] ne have "iEnd \<le> length A" "jEnd \<le> length B"
    by auto
  ultimately show ?case by simp
qed

declare backtrack_blocks.simps [simp del]

definition diffTokens :: "string \<Rightarrow> string \<Rightarrow> operation list" where
  "diffTokens aStr bStr = backtrack_blocks (tokenize aStr) (tokenize bStr) 0 0 []"

subsection \<open>The attribute-aware alignment of the merged page view\<close>







section \<open>Rendering\<close>

subsection \<open>Escaping\<close>

text \<open>
  \<^verbatim>\<open>function esc(s) {
    if (!s) return '';
    return s.replace(/&/g, "&amp;").replace(/</g, "&lt;").replace(/>/g, "&gt;");
  }\<close>
\<close>

definition replace_all :: "char \<Rightarrow> string \<Rightarrow> string \<Rightarrow> string" where
  "replace_all c r s = concat (map (\<lambda>x. if x = c then r else [x]) s)"

definition esc :: "string \<Rightarrow> string" where
  "esc s =
     (if s = [] then []
      else replace_all CHR ''>'' ''&gt;''
             (replace_all CHR ''<'' ''&lt;'' (replace_all CHR ''&'' ''&amp;'' s)))"

subsection \<open>Change identifiers\<close>

text \<open>
  \<^verbatim>\<open>const delId = `change-${changeCounter}-del`;
  const addId = `change-${changeCounter}-add`;\<close>

  The counter is a non-negative integer; a template literal writes it in decimal.
\<close>

definition digit_char :: "nat \<Rightarrow> char" where
  "digit_char d = char_of (48 + d)"

function decimal :: "nat \<Rightarrow> string" where
  "decimal n = (if n < 10 then [digit_char n] else decimal (n div 10) @ [digit_char (n mod 10)])"
  by pat_completeness auto
termination
  by (relation "measure id") auto

declare decimal.simps [simp del]

definition del_id :: "nat \<Rightarrow> string" where
  "del_id k = ''change-'' @ decimal k @ ''-del''"

definition add_id :: "nat \<Rightarrow> string" where
  "add_id k = ''change-'' @ decimal k @ ''-add''"

subsection \<open>The side-by-side view\<close>

record change =
  change_type :: string
  delId :: string
  addId :: string

record render_state =
  baselineContent :: string
  currentContent :: string
  allChanges :: "change list"
  changeCounter :: nat

definition span :: "string \<Rightarrow> string \<Rightarrow> string \<Rightarrow> string" where
  "span cls ident body = ''<span class=\"'' @ cls @ ''\" id=\"'' @ ident @ ''\">'' @ body @ ''</span>''"

text \<open>
  The branches of the loop of \<open>renderSideBySide\<close>, in the file of src/unnamed that holds
  the compare view:

  \<^verbatim>\<open>baselineContent += `<span class="diff-deleted" id="${delId}">${esc(value)}</span>`;
  currentContent += `<span class="diff-added" id="${addId}">${esc(diff[i + 1][1])}</span>`;
  allChanges.push({ type: 'change', delId, addId });
  i++; changeCounter++;\<close>
\<close>

definition render_change :: "string \<Rightarrow> string \<Rightarrow> render_state \<Rightarrow> render_state" where
  "render_change v w st =
     (let k = changeCounter st
      in \<lparr>baselineContent = baselineContent st @ span ''diff-deleted'' (del_id k) (esc v),
          currentContent = currentContent st @ span ''diff-added'' (add_id k) (esc w),
          allChanges = allChanges st @ [\<lparr>change_type = ''change'', delId = del_id k, addId = add_id k\<rparr>],
          changeCounter = k + 1\<rparr>)"

text \<open>
  \<^verbatim>\<open>baselineContent += `<span class="diff-deleted" id="${delId}">${esc(value)}</span>`;
  currentContent += `<span class="diff-placeholder" id="${addId}">&nbsp;</span>`;
  allChanges.push({ type: 'delete', delId, addId });
  changeCounter++;\<close>
\<close>

definition render_delete :: "string \<Rightarrow> render_state \<Rightarrow> render_state" where
  "render_delete v st =
     (let k = changeCounter st
      in \<lparr>baselineContent = baselineContent st @ span ''diff-deleted'' (del_id k) (esc v),
          currentContent = currentContent st @ span ''diff-placeholder'' (add_id k) ''&nbsp;'',
          allChanges = allChanges st @ [\<lparr>change_type = ''delete'', delId = del_id k, addId = add_id k\<rparr>],
          changeCounter = k + 1\<rparr>)"

text \<open>
  \<^verbatim>\<open>baselineContent += `<span class="diff-placeholder" id="${delId}">&nbsp;</span>`;
  currentContent += `<span class="diff-added" id="${addId}">${esc(value)}</span>`;
  allChanges.push({ type: 'insert', delId, addId });
  changeCounter++;\<close>
\<close>

definition render_insert :: "string \<Rightarrow> render_state \<Rightarrow> render_state" where
  "render_insert v st =
     (let k = changeCounter st
      in \<lparr>baselineContent = baselineContent st @ span ''diff-placeholder'' (del_id k) ''&nbsp;'',
          currentContent = currentContent st @ span ''diff-added'' (add_id k) (esc v),
          allChanges = allChanges st @ [\<lparr>change_type = ''insert'', delId = del_id k, addId = add_id k\<rparr>],
          changeCounter = k + 1\<rparr>)"

text \<open>
  \<^verbatim>\<open>baselineContent += esc(value);
  currentContent += esc(value);\<close>
\<close>

definition render_equal :: "string \<Rightarrow> render_state \<Rightarrow> render_state" where
  "render_equal v st =
     st\<lparr>baselineContent := baselineContent st @ esc v,
        currentContent := currentContent st @ esc v\<rparr>"

text \<open>
  \<^verbatim>\<open>for (let i = 0; i < diff.length; i++) {
    const [type, value] = diff[i];
    if (type === 'delete' && i + 1 < diff.length && diff[i + 1][0] === 'insert') { ... i++; ... }
    else if (type === 'delete') { ... }
    else if (type === 'insert') { ... }
    else { ... }
  }\<close>

  The loop is a recursion on the operations that are left; the equations are tried in
  the order of the branches.
\<close>

fun render_loop :: "operation list \<Rightarrow> render_state \<Rightarrow> render_state" where
  "render_loop [] st = st"
| "render_loop ((Delete, v) # (Insert, w) # rest) st = render_loop rest (render_change v w st)"
| "render_loop ((Delete, v) # rest) st = render_loop rest (render_delete v st)"
| "render_loop ((Insert, v) # rest) st = render_loop rest (render_insert v st)"
| "render_loop ((Equal, v) # rest) st = render_loop rest (render_equal v st)"

definition initial_state :: render_state where
  "initial_state = \<lparr>baselineContent = [], currentContent = [], allChanges = [], changeCounter = 0\<rparr>"

definition renderSideBySide :: "string \<Rightarrow> string \<Rightarrow> render_state" where
  "renderSideBySide baselineHTML currentHTML =
     render_loop (diffTokens baselineHTML currentHTML) initial_state"

text \<open>
  The loop of \<open>renderSideBySide\<close> in compare\_view.js has the same first, second and last
  branch. Its third branch is

  \<^verbatim>\<open>} else if (type === 'insert') {
    const escapedValue = esc(value);
    const addId = `change-${changeCounter}-add`;
    const delId = `change-${changeCounter}-del`; // ID for the placeholder
    baselineContent += `<span class="diff-deleted" id="${delId}">${escapedDelValue}</span>\n`;
    ...\<close>

  where \<^verbatim>\<open>escapedDelValue\<close> is a \<^verbatim>\<open>const\<close> of the first branch's block and is not in
  scope: evaluating the template literal throws a ReferenceError. The two contents are
  local variables and are lost then; \<^verbatim>\<open>allChanges\<close> is a variable of the module and keeps
  the changes pushed so far. A run that throws yields the error with these changes, a
  run that returns yields the final state.
\<close>

datatype js_error = ReferenceError

type_synonym render_result = "(js_error \<times> change list) + render_state"

fun render_loop_cv :: "operation list \<Rightarrow> render_state \<Rightarrow> render_result" where
  "render_loop_cv [] st = Inr st"
| "render_loop_cv ((Delete, v) # (Insert, w) # rest) st = render_loop_cv rest (render_change v w st)"
| "render_loop_cv ((Delete, v) # rest) st = render_loop_cv rest (render_delete v st)"
| "render_loop_cv ((Insert, v) # rest) st = Inl (ReferenceError, allChanges st)"
| "render_loop_cv ((Equal, v) # rest) st = render_loop_cv rest (render_equal v st)"

definition renderSideBySide_cv :: "string \<Rightarrow> string \<Rightarrow> render_result" where
  "renderSideBySide_cv baselineHTML currentHTML =
     render_loop_cv (diffTokens baselineHTML currentHTML) initial_state"

text \<open>The content of \<^verbatim>\<open>allChanges\<close> after the call, thrown or returned.\<close>

definition recorded_changes :: "render_result \<Rightarrow> change list" where
  "recorded_changes r = (case r of Inl (e, chs) \<Rightarrow> chs | Inr st \<Rightarrow> allChanges st)"

subsection \<open>The merged view\<close>

text \<open>
  \<^verbatim>\<open>diff.forEach(([type, value]) => {
    if (type === 'equal') html += value;
    else if (type === 'delete') html += `<del class="diff-deleted">${value}</del>`;
    else if (type === 'insert') html += `<ins class="diff-added">${value}</ins>`;
  });\<close>
\<close>

fun merged_piece :: "operation \<Rightarrow> string" where
  "merged_piece (Equal, v) = v"
| "merged_piece (Delete, v) = ''<del class=\"diff-deleted\">'' @ v @ ''</del>''"
| "merged_piece (Insert, v) = ''<ins class=\"diff-added\">'' @ v @ ''</ins>''"

definition buildMergedHTML :: "string \<Rightarrow> string \<Rightarrow> string option" where
  "buildMergedHTML aStr bStr =
     (case diffTokens_merged aStr bStr of
        None \<Rightarrow> None
      | Some diff \<Rightarrow> Some (foldl (\<lambda>html op. html @ merged_piece op) [] diff))"

section \<open>Notions the properties are stated with\<close>

subsection \<open>Characters a tokenizer may drop\<close>

text \<open>
  A character that is not an angle bracket; a character that is neither \<^verbatim>\<open><\<close> nor white
  space.
\<close>

definition not_angle :: "char \<Rightarrow> bool" where
  "not_angle c = (c \<noteq> CHR ''<'' \<and> c \<noteq> CHR ''>'')"

definition kept_html :: "char \<Rightarrow> bool" where
  "kept_html c = (c \<noteq> CHR ''<'' \<and> \<not> is_space c)"

subsection \<open>The scan of a tokenizer\<close>

text \<open>
  A scan cuts the input into consecutive pieces, each one kept as a token or dropped.
  \<open>unclosed r\<close>: a \<^verbatim>\<open><\<close> followed by \<open>r\<close> opens no tag, because \<open>r\<close> is empty, starts with
  \<^verbatim>\<open>>\<close> or holds no \<^verbatim>\<open>>\<close> at all. \<open>blank t\<close>: \<open>t\<close> is made of white space only.

  \<open>scanned ps\<close>, for \<open>tokenize\<close>: a kept piece is the match of the expression at the
  start of what is left of the input; a dropped piece is a single \<^verbatim>\<open>>\<close>, or a single \<^verbatim>\<open><\<close>
  that opens no tag. \<open>scanned_html ps\<close>, for \<open>tokenizeHTML\<close>: a kept piece is the match at
  the start of what is left and is not blank; a dropped piece is a single \<^verbatim>\<open><\<close> that opens
  no tag, or the match at the start of what is left when that match is blank.
\<close>

type_synonym piece = "bool \<times> string"

definition unclosed :: "string \<Rightarrow> bool" where
  "unclosed r = (r = [] \<or> hd r = CHR ''>'' \<or> CHR ''>'' \<notin> set r)"

definition blank :: "string \<Rightarrow> bool" where
  "blank t = list_all is_space t"

fun scanned :: "piece list \<Rightarrow> bool" where
  "scanned [] = True"
| "scanned ((kept, t) # ps) =
     ((if kept then match_token (t @ concat (map snd ps)) = Some (t, concat (map snd ps))
       else t = ''>'' \<or> (t = ''<'' \<and> unclosed (concat (map snd ps)))) \<and>
      scanned ps)"

fun scanned_html :: "piece list \<Rightarrow> bool" where
  "scanned_html [] = True"
| "scanned_html ((kept, t) # ps) =
     ((if kept then
         match_html (t @ concat (map snd ps)) = Some (t, concat (map snd ps)) \<and> \<not> blank t
       else
         (t = ''<'' \<and> unclosed (concat (map snd ps))) \<or>
         (match_html (t @ concat (map snd ps)) = Some (t, concat (map snd ps)) \<and> blank t)) \<and>
      scanned_html ps)"

subsection \<open>The two sides of an operation list\<close>

text \<open>
  The baseline side of an operation list is the concatenation of the payloads of its
  \<open>Equal\<close> and \<open>Delete\<close> operations, the current side the one of its \<open>Equal\<close> and
  \<open>Insert\<close> operations.
\<close>

definition base_side :: "operation list \<Rightarrow> string" where
  "base_side ops = concat (map snd (filter (\<lambda>op. fst op = Equal \<or> fst op = Delete) ops))"

definition current_side :: "operation list \<Rightarrow> string" where
  "current_side ops = concat (map snd (filter (\<lambda>op. fst op = Equal \<or> fst op = Insert) ops))"

text \<open>The payloads of the \<open>Equal\<close> operations: the tokens an alignment keeps.\<close>

definition equal_payloads :: "operation list \<Rightarrow> string list" where
  "equal_payloads ops = map snd (filter (\<lambda>op. fst op = Equal) ops)"

subsection \<open>The walk of the tie-break\<close>

text \<open>
  The walk the specification describes: from a cell whose tokens differ, advance the
  current index when the cell to the right holds at least as much as the cell below, and
  the baseline index otherwise.
\<close>

function lookahead_by_cells :: "string list \<Rightarrow> string list \<Rightarrow> nat \<Rightarrow> nat \<Rightarrow> nat \<times> nat" where
  "lookahead_by_cells A B iEnd jEnd =
     (if iEnd < length A \<and> jEnd < length B \<and> A ! iEnd \<noteq> B ! jEnd then
        (if dp A B iEnd (jEnd + 1) \<ge> dp A B (iEnd + 1) jEnd then
           lookahead_by_cells A B iEnd (jEnd + 1)
         else lookahead_by_cells A B (iEnd + 1) jEnd)
      else (iEnd, jEnd))"
  by pat_completeness auto
termination
  by (relation "measure (\<lambda>(A, B, iEnd, jEnd). (length A - iEnd) + (length B - jEnd))") auto

declare lookahead_by_cells.simps [simp del]

subsection \<open>Numbered changes\<close>

text \<open>
  The identifier pairs of the recorded changes, and the state in which they are the pairs
  of the numbers below the counter, in order.
\<close>

definition id_pairs :: "render_state \<Rightarrow> (string \<times> string) list" where
  "id_pairs st = map (\<lambda>c. (delId c, addId c)) (allChanges st)"

definition numbered :: "render_state \<Rightarrow> bool" where
  "numbered st = (id_pairs st = map (\<lambda>k. (del_id k, add_id k)) [0..<changeCounter st])"

subsection \<open>Escaped panes\<close>

text \<open>
  \<open>amps_escaped\<close>: every \<^verbatim>\<open>&\<close> starts one of the entities the view writes. \<open>esc_char\<close>: what
  \<open>esc\<close> makes of one character. \<open>pane_escaped pane n\<close>: the pane holds \<open>2 * n\<close> characters
  \<^verbatim>\<open><\<close> and as many \<^verbatim>\<open>>\<close> (each of \<open>n\<close> changes has an opening and a closing \<^verbatim>\<open>span\<close>
  marker) and each \<^verbatim>\<open>&\<close> starts an entity.
\<close>

fun amps_escaped :: "string \<Rightarrow> bool" where
  "amps_escaped [] = True"
| "amps_escaped (c # cs) =
     (if c = CHR ''&'' then
        (prefix ''amp;'' cs \<or> prefix ''lt;'' cs \<or> prefix ''gt;'' cs \<or> prefix ''nbsp;'' cs) \<and>
        amps_escaped cs
      else amps_escaped cs)"

definition esc_char :: "char \<Rightarrow> string" where
  "esc_char c =
     (if c = CHR ''&'' then ''&amp;'' else if c = CHR ''<'' then ''&lt;''
      else if c = CHR ''>'' then ''&gt;'' else [c])"

definition pane_escaped :: "string \<Rightarrow> nat \<Rightarrow> bool" where
  "pane_escaped pane n =
     (count_list pane CHR ''<'' = 2 * n \<and> count_list pane CHR ''>'' = 2 * n \<and> amps_escaped pane)"

definition escaped_state :: "render_state \<Rightarrow> bool" where
  "escaped_state st =
     (pane_escaped (baselineContent st) (length (allChanges st)) \<and>
      pane_escaped (currentContent st) (length (allChanges st)))"

text \<open>
  \<open>unescape\<close> reads the three entities of \<open>esc\<close> back. \<open>text_only False pane\<close> is the pane
  without its markers: everything from a \<^verbatim>\<open><\<close> to the next \<^verbatim>\<open>>\<close> is left out (the flag
  tells whether the scan is inside a marker). \<open>left_text\<close> and \<open>right_text\<close> are what the
  baseline pane and the current pane are to hold between the markers: the escaped payload
  of each equal operation in both, the escaped payload of a delete on the left and the
  one of an insert on the right, and \<^verbatim>\<open>&nbsp;\<close> opposite a delete that no insert follows
  and opposite an insert that follows no delete.
\<close>

fun unescape :: "string \<Rightarrow> string" where
  "unescape [] = []"
| "unescape (c # cs) =
     (if c = CHR ''&'' \<and> prefix ''amp;'' cs then CHR ''&'' # unescape (drop 4 cs)
      else if c = CHR ''&'' \<and> prefix ''lt;'' cs then CHR ''<'' # unescape (drop 3 cs)
      else if c = CHR ''&'' \<and> prefix ''gt;'' cs then CHR ''>'' # unescape (drop 3 cs)
      else c # unescape cs)"

fun text_only :: "bool \<Rightarrow> string \<Rightarrow> string" where
  "text_only inside [] = []"
| "text_only inside (c # cs) =
     (if inside then (if c = CHR ''>'' then text_only False cs else text_only True cs)
      else if c = CHR ''<'' then text_only True cs
      else c # text_only False cs)"

fun left_text :: "operation list \<Rightarrow> string" where
  "left_text [] = []"
| "left_text ((Delete, v) # (Insert, w) # rest) = esc v @ left_text rest"
| "left_text ((Delete, v) # rest) = esc v @ left_text rest"
| "left_text ((Insert, v) # rest) = ''&nbsp;'' @ left_text rest"
| "left_text ((Equal, v) # rest) = esc v @ left_text rest"

fun right_text :: "operation list \<Rightarrow> string" where
  "right_text [] = []"
| "right_text ((Delete, v) # (Insert, w) # rest) = esc w @ right_text rest"
| "right_text ((Delete, v) # rest) = ''&nbsp;'' @ right_text rest"
| "right_text ((Insert, v) # rest) = esc v @ right_text rest"
| "right_text ((Equal, v) # rest) = esc v @ right_text rest"

subsection \<open>The operations behind each change\<close>

text \<open>
  The operations each change stands for, with their positions in the operation list:
  the loop's branches, recording what each consumes instead of rendering it.
\<close>

fun members :: "nat \<Rightarrow> operation list \<Rightarrow> (nat \<times> operation) list list" where
  "members p [] = []"
| "members p ((Delete, v) # (Insert, w) # rest) =
     [(p, (Delete, v)), (p + 1, (Insert, w))] # members (p + 2) rest"
| "members p ((Delete, v) # rest) = [(p, (Delete, v))] # members (p + 1) rest"
| "members p ((Insert, v) # rest) = [(p, (Insert, v))] # members (p + 1) rest"
| "members p ((Equal, v) # rest) = members (p + 1) rest"

definition member_type :: "(nat \<times> operation) list \<Rightarrow> string" where
  "member_type ms =
     (if map (fst \<circ> snd) ms = [Delete, Insert] then ''change''
      else if map (fst \<circ> snd) ms = [Delete] then ''delete''
      else ''insert'')"

definition non_equal :: "nat \<times> operation \<Rightarrow> bool" where
  "non_equal x = (fst (snd x) \<noteq> Equal)"

section \<open>What the tokenizers keep\<close>

lemma match_token_None: "s \<noteq> [] \<Longrightarrow> match_token s = None \<Longrightarrow> hd s = CHR ''<'' \<or> hd s = CHR ''>''"
  unfolding match_token_def match_word_def match_run_def is_punct_def
  by (cases s) (auto split: option.splits if_splits simp: Let_def)

lemma tokenize_subseq: "subseq (concat (tokenize s)) s"
proof (induction s rule: tokenize.induct)
  case (1 s)
  show ?case
  proof (cases "s = []")
    case True
    then show ?thesis by (simp add: tokenize.simps)
  next
    case ne: False
    show ?thesis
    proof (cases "match_token s")
      case None
      from ne None 1 have "subseq (concat (tokenize (tl s))) (tl s)" by simp
      moreover have "subseq (tl s) s" using ne by (cases s) auto
      ultimately have "subseq (concat (tokenize (tl s))) s" using subseq_order.order_trans by blast
      with ne None show ?thesis by (subst tokenize.simps) simp
    next
      case (Some p)
      obtain tok rest where p: "p = (tok, rest)" by (cases p)
      with Some have m: "match_token s = Some (tok, rest)" by simp
      then have s: "s = tok @ rest" by (auto dest: match_token_split)
      from ne m 1 have "subseq (concat (tokenize rest)) rest" by simp
      then have "subseq (tok @ concat (tokenize rest)) (tok @ rest)"
        by (simp add: subseq_append')
      with ne m s show ?thesis by (subst tokenize.simps) simp
    qed
  qed
qed

lemma tokenize_keeps: "filter not_angle (concat (tokenize s)) = filter not_angle s"
proof (induction s rule: tokenize.induct)
  case (1 s)
  show ?case
  proof (cases "s = []")
    case True
    then show ?thesis by (simp add: tokenize.simps)
  next
    case ne: False
    show ?thesis
    proof (cases "match_token s")
      case None
      from ne None 1 have ih: "filter not_angle (concat (tokenize (tl s))) = filter not_angle (tl s)" by simp
      from match_token_None[OF ne None] have "\<not> not_angle (hd s)" by (auto simp: not_angle_def)
      then have "filter not_angle s = filter not_angle (tl s)" using ne by (cases s) auto
      with ne None ih show ?thesis by (subst tokenize.simps) simp
    next
      case (Some p)
      obtain tok rest where p: "p = (tok, rest)" by (cases p)
      with Some have m: "match_token s = Some (tok, rest)" by simp
      then have s: "s = tok @ rest" by (auto dest: match_token_split)
      from ne m 1 have "filter not_angle (concat (tokenize rest)) = filter not_angle rest" by simp
      with ne m s show ?thesis by (subst tokenize.simps) simp
    qed
  qed
qed


lemma match_html_None: "s \<noteq> [] \<Longrightarrow> match_html s = None \<Longrightarrow> hd s = CHR ''<''"
  unfolding match_html_def match_run_def
  by (cases s) (auto split: option.splits if_splits simp: Let_def)

lemma trim_empty: "trim t = [] \<Longrightarrow> filter kept_html t = []"
proof -
  assume "trim t = []"
  then have "dropWhile is_space (rev (dropWhile is_space t)) = []" by (simp add: trim_def)
  then have "\<forall>c \<in> set (rev (dropWhile is_space t)). is_space c"
    by (simp add: dropWhile_eq_Nil_conv)
  then have "\<forall>c \<in> set (dropWhile is_space t). is_space c" by simp
  moreover have "\<forall>c \<in> set (takeWhile is_space t). is_space c"
    by (auto dest: set_takeWhileD)
  moreover have "set t = set (takeWhile is_space t) \<union> set (dropWhile is_space t)"
    by (metis set_append takeWhile_dropWhile_id)
  ultimately have "\<forall>c \<in> set t. is_space c" by blast
  then show ?thesis by (auto simp: filter_empty_conv kept_html_def)
qed

lemma tokenizeHTML_subseq: "subseq (concat (map content (tokenizeHTML s))) s"
proof (induction s rule: tokenizeHTML.induct)
  case (1 s)
  show ?case
  proof (cases "s = []")
    case True
    then show ?thesis by (simp add: tokenizeHTML.simps)
  next
    case ne: False
    show ?thesis
    proof (cases "match_html s")
      case None
      from ne None 1 have "subseq (concat (map content (tokenizeHTML (tl s)))) (tl s)" by simp
      moreover have "subseq (tl s) s" using ne by (cases s) auto
      ultimately have "subseq (concat (map content (tokenizeHTML (tl s)))) s"
        using subseq_order.order_trans by blast
      with ne None show ?thesis by (subst tokenizeHTML.simps) simp
    next
      case (Some p)
      obtain tok rest where p: "p = (tok, rest)" by (cases p)
      with Some have m: "match_html s = Some (tok, rest)" by simp
      then have s: "s = tok @ rest" by (auto dest: match_html_split)
      from ne m 1 have ih: "subseq (concat (map content (tokenizeHTML rest))) rest"
        by (cases "trim tok = []") auto
      then have a: "subseq (tok @ concat (map content (tokenizeHTML rest))) (tok @ rest)"
        by (simp add: subseq_append')
      from ih have b: "subseq (concat (map content (tokenizeHTML rest))) (tok @ rest)"
        by (simp add: subseq_drop_many)
      from ne m s a b show ?thesis
        by (subst tokenizeHTML.simps) (simp add: mk_token_def)
    qed
  qed
qed

lemma tokenizeHTML_keeps:
  "filter kept_html (concat (map content (tokenizeHTML s))) = filter kept_html s"
proof (induction s rule: tokenizeHTML.induct)
  case (1 s)
  show ?case
  proof (cases "s = []")
    case True
    then show ?thesis by (simp add: tokenizeHTML.simps)
  next
    case ne: False
    show ?thesis
    proof (cases "match_html s")
      case None
      from ne None 1 have ih:
        "filter kept_html (concat (map content (tokenizeHTML (tl s)))) = filter kept_html (tl s)"
        by simp
      from match_html_None[OF ne None] have "\<not> kept_html (hd s)" by (simp add: kept_html_def)
      then have "filter kept_html s = filter kept_html (tl s)" using ne by (cases s) auto
      with ne None ih show ?thesis by (subst tokenizeHTML.simps) simp
    next
      case (Some p)
      obtain tok rest where p: "p = (tok, rest)" by (cases p)
      with Some have m: "match_html s = Some (tok, rest)" by simp
      then have s: "s = tok @ rest" by (auto dest: match_html_split)
      from ne m 1 have ih:
        "filter kept_html (concat (map content (tokenizeHTML rest))) = filter kept_html rest"
        by (cases "trim tok = []") auto
      with ne m s show ?thesis
        by (subst tokenizeHTML.simps) (auto simp: mk_token_def dest: trim_empty)
    qed
  qed
qed

text \<open>
  The scans: where the expression of \<open>tokenize\<close> or of \<open>tokenizeHTML\<close> matches nothing,
  and that the tokens are the kept pieces of the one scan of the input.
\<close>

lemma trim_blank: "trim t = [] \<longleftrightarrow> blank t"
proof
  assume "trim t = []"
  then have "dropWhile is_space (rev (dropWhile is_space t)) = []" by (simp add: trim_def)
  then have "\<forall>c \<in> set (rev (dropWhile is_space t)). is_space c"
    by (simp add: dropWhile_eq_Nil_conv)
  then have "\<forall>c \<in> set (dropWhile is_space t). is_space c" by simp
  moreover have "\<forall>c \<in> set (takeWhile is_space t). is_space c"
    by (auto dest: set_takeWhileD)
  moreover have "set t = set (takeWhile is_space t) \<union> set (dropWhile is_space t)"
    by (metis set_append takeWhile_dropWhile_id)
  ultimately have "\<forall>c \<in> set t. is_space c" by blast
  then show "blank t" by (simp add: blank_def list_all_iff)
next
  assume "blank t"
  then have d: "dropWhile is_space t = []" unfolding blank_def by (induction t) auto
  show "trim t = []" unfolding trim_def d by simp
qed

lemma match_tag_lt: "match_tag (CHR ''<'' # r) = None \<longleftrightarrow> unclosed r"
proof -
  let ?P = "\<lambda>x. x \<noteq> CHR ''>''"
  have t: "takeWhile ?P r = [] \<longleftrightarrow> r = [] \<or> hd r = CHR ''>''"
    by (cases r) simp_all
  show ?thesis
  proof (cases "dropWhile ?P r")
    case Nil
    then have "\<forall>x \<in> set r. ?P x" by (simp only: dropWhile_eq_Nil_conv)
    then have "unclosed r" by (auto simp: unclosed_def)
    moreover have "match_tag (CHR ''<'' # r) = None"
      unfolding match_tag_def Let_def list.case Nil by simp
    ultimately show ?thesis by simp
  next
    case (Cons g rest)
    then have "\<not> (\<forall>x \<in> set r. ?P x)" by (simp only: dropWhile_eq_Nil_conv [symmetric]) simp
    then have "CHR ''>'' \<in> set r" by simp
    then have "unclosed r \<longleftrightarrow> takeWhile ?P r = []" by (simp add: unclosed_def t)
    moreover have "match_tag (CHR ''<'' # r) = None \<longleftrightarrow> takeWhile ?P r = []"
      unfolding match_tag_def Let_def list.case Cons by simp
    ultimately show ?thesis by simp
  qed
qed

lemma match_token_gt: "match_token (CHR ''>'' # r) = None"
  by (simp add: match_token_def match_tag_def match_word_def match_run_def
      is_word_def is_space_def is_punct_def)

lemma match_token_lt: "match_token (CHR ''<'' # r) = None \<longleftrightarrow> unclosed r"
proof -
  have "match_word (CHR ''<'' # r) = None" by (simp add: match_word_def is_word_def)
  moreover have "match_run is_space (CHR ''<'' # r) = None"
    by (simp add: match_run_def is_space_def)
  moreover have "match_run is_punct (CHR ''<'' # r) = None"
    by (simp add: match_run_def is_punct_def)
  ultimately show ?thesis
    using match_tag_lt [of r] by (auto simp: match_token_def split: option.splits)
qed

lemma match_html_lt: "match_html (CHR ''<'' # r) = None \<longleftrightarrow> unclosed r"
proof -
  have "match_run (\<lambda>x. x \<noteq> CHR ''<'') (CHR ''<'' # r) = None" by (simp add: match_run_def)
  then show ?thesis
    using match_tag_lt [of r] by (auto simp: match_html_def split: option.splits)
qed

lemma scanned_tokens: "scanned ps \<Longrightarrow> tokenize (concat (map snd ps)) = map snd (filter fst ps)"
proof (induction ps)
  case Nil
  then show ?case by (simp add: tokenize.simps)
next
  case (Cons p ps)
  obtain kept t where p: "p = (kept, t)" by (cases p)
  let ?rest = "concat (map snd ps)"
  from Cons p have ih: "tokenize ?rest = map snd (filter fst ps)" by simp
  show ?case
  proof (cases kept)
    case True
    with Cons.prems p have m: "match_token (t @ ?rest) = Some (t, ?rest)" by simp
    then have "t \<noteq> []" by (auto dest: match_token_split)
    then have "tokenize (t @ ?rest) = t # tokenize ?rest"
      using m by (subst tokenize.simps) simp
    with ih p True show ?thesis by simp
  next
    case False
    with Cons.prems p have "t = ''>'' \<or> (t = ''<'' \<and> unclosed ?rest)" by simp
    then have "t \<noteq> [] \<and> match_token (t @ ?rest) = None \<and> tl (t @ ?rest) = ?rest"
      using match_token_gt [of ?rest] match_token_lt [of ?rest] by auto
    then have "tokenize (t @ ?rest) = tokenize ?rest"
      by (subst tokenize.simps) simp
    with ih p False show ?thesis by simp
  qed
qed

lemma scanned_html_tokens:
  "scanned_html ps \<Longrightarrow> tokenizeHTML (concat (map snd ps)) = map mk_token (map snd (filter fst ps))"
proof (induction ps)
  case Nil
  then show ?case by (simp add: tokenizeHTML.simps)
next
  case (Cons p ps)
  obtain kept t where p: "p = (kept, t)" by (cases p)
  let ?rest = "concat (map snd ps)"
  from Cons p have ih: "tokenizeHTML ?rest = map mk_token (map snd (filter fst ps))" by simp
  show ?case
  proof (cases kept)
    case True
    with Cons.prems p have m: "match_html (t @ ?rest) = Some (t, ?rest)" and b: "\<not> blank t"
      by simp_all
    from m have "t \<noteq> []" by (auto dest: match_html_split)
    then have "tokenizeHTML (t @ ?rest) = mk_token t # tokenizeHTML ?rest"
      using m b by (subst tokenizeHTML.simps) (simp add: trim_blank)
    with ih p True show ?thesis by simp
  next
    case False
    with Cons.prems p consider
        (skip) "t = ''<''" "unclosed ?rest"
      | (ws) "match_html (t @ ?rest) = Some (t, ?rest)" "blank t" by auto
    then have "tokenizeHTML (t @ ?rest) = tokenizeHTML ?rest"
    proof cases
      case skip
      then have "t \<noteq> [] \<and> match_html (t @ ?rest) = None \<and> tl (t @ ?rest) = ?rest"
        using match_html_lt [of ?rest] by auto
      then show ?thesis by (subst tokenizeHTML.simps) simp
    next
      case ws
      from ws(1) have "t \<noteq> []" by (auto dest: match_html_split)
      then show ?thesis using ws by (subst tokenizeHTML.simps) (simp add: trim_blank)
    qed
    with ih p False show ?thesis by simp
  qed
qed

lemma tokenize_scanned:
  "\<exists>ps. scanned ps \<and> concat (map snd ps) = s"
proof (induction s rule: tokenize.induct)
  case (1 s)
  show ?case
  proof (cases "s = []")
    case True
    have "scanned [] \<and> concat (map snd ([] :: piece list)) = s" using True by simp
    then show ?thesis by blast
  next
    case ne: False
    show ?thesis
    proof (cases "match_token s")
      case None
      from ne None 1 have "\<exists>ps. scanned ps \<and> concat (map snd ps) = tl s" by simp
      then obtain ps where ps: "scanned ps" "concat (map snd ps) = tl s" by blast
      from ne obtain c r where s: "s = c # r" by (cases s) auto
      from match_token_None [OF ne None] have "c = CHR ''<'' \<or> c = CHR ''>''"
        unfolding s by simp
      moreover have "c = CHR ''<'' \<Longrightarrow> unclosed r"
        using None match_token_lt [of r] unfolding s by simp
      ultimately have "[c] = ''>'' \<or> ([c] = ''<'' \<and> unclosed r)" by blast
      then have "scanned ((False, [c]) # ps)" using ps unfolding s by simp
      moreover have "concat (map snd ((False, [c]) # ps)) = s" using ps unfolding s by simp
      ultimately show ?thesis by blast
    next
      case (Some p)
      obtain tok rest where p: "p = (tok, rest)" by (cases p)
      with Some have m: "match_token s = Some (tok, rest)" by simp
      then have s: "s = tok @ rest" by (auto dest: match_token_split)
      from ne m 1 have "\<exists>ps. scanned ps \<and> concat (map snd ps) = rest" by simp
      then obtain ps where ps: "scanned ps" "concat (map snd ps) = rest" by blast
      have "scanned ((True, tok) # ps)" using ps m s by simp
      moreover have "concat (map snd ((True, tok) # ps)) = s" using ps s by simp
      ultimately show ?thesis by blast
    qed
  qed
qed

lemma tokenizeHTML_scanned:
  "\<exists>ps. scanned_html ps \<and> concat (map snd ps) = s"
proof (induction s rule: tokenizeHTML.induct)
  case (1 s)
  show ?case
  proof (cases "s = []")
    case True
    have "scanned_html [] \<and> concat (map snd ([] :: piece list)) = s" using True by simp
    then show ?thesis by blast
  next
    case ne: False
    show ?thesis
    proof (cases "match_html s")
      case None
      from ne None 1 have "\<exists>ps. scanned_html ps \<and> concat (map snd ps) = tl s" by simp
      then obtain ps where ps: "scanned_html ps" "concat (map snd ps) = tl s" by blast
      from ne obtain c r where s: "s = c # r" by (cases s) auto
      from match_html_None [OF ne None] have c: "c = CHR ''<''" unfolding s by simp
      then have "unclosed r" using None match_html_lt [of r] unfolding s by simp
      with c have "[c] = ''<'' \<and> unclosed r" by simp
      then have "scanned_html ((False, [c]) # ps)" using ps unfolding s by simp
      moreover have "concat (map snd ((False, [c]) # ps)) = s" using ps unfolding s by simp
      ultimately show ?thesis by blast
    next
      case (Some p)
      obtain tok rest where p: "p = (tok, rest)" by (cases p)
      with Some have m: "match_html s = Some (tok, rest)" by simp
      then have s: "s = tok @ rest" by (auto dest: match_html_split)
      from ne m 1 have "\<exists>ps. scanned_html ps \<and> concat (map snd ps) = rest"
        by (cases "trim tok = []") simp_all
      then obtain ps where ps: "scanned_html ps" "concat (map snd ps) = rest" by blast
      let ?k = "\<not> blank tok"
      have "scanned_html ((?k, tok) # ps)" using ps m s by simp
      moreover have "concat (map snd ((?k, tok) # ps)) = s" using ps s by simp
      ultimately show ?thesis by blast
    qed
  qed
qed

section \<open>What an alignment covers\<close>

lemma base_side_append: "base_side (xs @ ys) = base_side xs @ base_side ys"
  by (simp add: base_side_def)

lemma current_side_append: "current_side (xs @ ys) = current_side xs @ current_side ys"
  by (simp add: current_side_def)

lemma sides_single [simp]:
  "base_side [(Equal, v)] = v" "base_side [(Delete, v)] = v" "base_side [(Insert, v)] = []"
  "current_side [(Equal, v)] = v" "current_side [(Delete, v)] = []" "current_side [(Insert, v)] = v"
  by (simp_all add: base_side_def current_side_def)

lemma sides_push_if [simp]:
  "base_side (push_if d Delete p) = base_side d @ p"
  "base_side (push_if d Insert p) = base_side d"
  "current_side (push_if d Delete p) = current_side d"
  "current_side (push_if d Insert p) = current_side d @ p"
  by (simp_all add: push_if_def base_side_append current_side_append)

lemma concat_drop_step: "i < length A \<Longrightarrow> concat (drop i A) = A ! i @ concat (drop (Suc i) A)"
  by (simp flip: Cons_nth_drop_Suc)

lemma backtrack_sides:
  "\<exists>ops. backtrack A B i j diff = Some ops \<and>
         base_side ops = base_side diff @ concat (drop i A) \<and>
         current_side ops = current_side diff @ concat (drop j B)"
proof (induction A B i j diff rule: backtrack.induct)
  case (1 A B i j diff)
  consider
    (stop) "\<not> (i < length A \<or> j < length B)"
  | (eq) "i < length A" "j < length B" "A ! i = B ! j"
  | (ins) "i < length A \<or> j < length B" "\<not> (i < length A \<and> j < length B \<and> A ! i = B ! j)"
      "j < length B \<and> (i = length A \<or> dp A B i (j + 1) \<ge> dp A B (i + 1) j)"
  | (del) "i < length A \<or> j < length B" "\<not> (i < length A \<and> j < length B \<and> A ! i = B ! j)"
      "\<not> (j < length B \<and> (i = length A \<or> dp A B i (j + 1) \<ge> dp A B (i + 1) j))"
      "i < length A"
  | (stuck) "i < length A \<or> j < length B" "\<not> (i < length A \<and> j < length B \<and> A ! i = B ! j)"
      "\<not> (j < length B \<and> (i = length A \<or> dp A B i (j + 1) \<ge> dp A B (i + 1) j))"
      "\<not> i < length A"
    by blast
  then show ?case
  proof cases
    case stop
    then show ?thesis by (simp add: backtrack.simps)
  next
    case eq
    from "1.IH"(1) eq obtain ops where
      "backtrack A B (i + 1) (j + 1) (diff @ [(Equal, A ! i)]) = Some ops"
      "base_side ops = base_side (diff @ [(Equal, A ! i)]) @ concat (drop (i + 1) A)"
      "current_side ops = current_side (diff @ [(Equal, A ! i)]) @ concat (drop (j + 1) B)"
      by auto
    with eq show ?thesis
      by (subst backtrack.simps)
         (simp add: base_side_append current_side_append concat_drop_step)
  next
    case ins
    from "1.IH"(2) ins obtain ops where
      "backtrack A B i (j + 1) (diff @ [(Insert, B ! j)]) = Some ops"
      "base_side ops = base_side (diff @ [(Insert, B ! j)]) @ concat (drop i A)"
      "current_side ops = current_side (diff @ [(Insert, B ! j)]) @ concat (drop (j + 1) B)"
      by auto
    with ins show ?thesis
      by (subst backtrack.simps)
         (auto simp add: base_side_append current_side_append concat_drop_step)
  next
    case del
    from "1.IH"(3) del obtain ops where
      "backtrack A B (i + 1) j (diff @ [(Delete, A ! i)]) = Some ops"
      "base_side ops = base_side (diff @ [(Delete, A ! i)]) @ concat (drop (i + 1) A)"
      "current_side ops = current_side (diff @ [(Delete, A ! i)]) @ concat (drop j B)"
      by auto
    with del show ?thesis
      by (subst backtrack.simps)
         (auto simp add: base_side_append current_side_append concat_drop_step)
  next
    case stuck
    then have "j < length B" "i > length A" by auto
    then have "dp A B i (j + 1) = 0" "dp A B (i + 1) j = 0" by (simp_all add: dp.simps)
    with stuck show ?thesis by simp
  qed
qed

lemma concat_slice_drop:
  "i \<le> e \<Longrightarrow> concat (slice A i e) @ concat (drop e A) = concat (drop i A)"
proof -
  assume "i \<le> e"
  then have "drop e A = drop (e - i) (drop i A)" by simp
  then have "slice A i e @ drop e A = drop i A"
    unfolding slice_def by (metis append_take_drop_id)
  then show ?thesis by (metis concat_append)
qed

lemma backtrack_blocks_sides:
  "base_side (backtrack_blocks A B i j diff) = base_side diff @ concat (drop i A) \<and>
   current_side (backtrack_blocks A B i j diff) = current_side diff @ concat (drop j B)"
proof (induction A B i j diff rule: backtrack_blocks.induct)
  case (1 A B i j diff)
  show ?case
  proof (cases "i < length A \<and> j < length B")
    case False
    then show ?thesis
      by (subst (1 2) backtrack_blocks.simps)
         (auto simp: Let_def base_side_append current_side_append)
  next
    case inside: True
    show ?thesis
    proof (cases "A ! i = B ! j")
      case True
      with inside "1.IH"(1) show ?thesis
        by (subst (1 2) backtrack_blocks.simps)
           (simp add: base_side_append current_side_append concat_drop_step)
    next
      case False
      obtain iEnd jEnd where la: "lookahead A B i j i j = (iEnd, jEnd)"
        by (cases "lookahead A B i j i j")
      from lookahead_bounds[OF la] have le: "i \<le> iEnd" "j \<le> jEnd" by auto
      from "1.IH"(2)[OF inside False la[symmetric]]
      have ih: "base_side (backtrack_blocks A B iEnd jEnd
                  (push_if (push_if diff Delete (concat (slice A i iEnd))) Insert (concat (slice B j jEnd))))
                = base_side diff @ concat (slice A i iEnd) @ concat (drop iEnd A)"
        "current_side (backtrack_blocks A B iEnd jEnd
                  (push_if (push_if diff Delete (concat (slice A i iEnd))) Insert (concat (slice B j jEnd))))
                = current_side diff @ concat (slice B j jEnd) @ concat (drop jEnd B)"
        by simp_all
      from inside False la ih le show ?thesis
        by (subst (1 2) backtrack_blocks.simps) (simp add: concat_slice_drop)
    qed
  qed
qed


lemma backtrack_identity:
  "B = A \<Longrightarrow> j = i \<Longrightarrow> backtrack A B i j diff = Some (diff @ map (Pair Equal) (drop i A))"
proof (induction A B i j diff rule: backtrack.induct)
  case (1 A B i j diff)
  show ?case
  proof (cases "i < length A")
    case True
    with "1.prems" "1.IH"(1) have
      "backtrack A B (i + 1) (j + 1) (diff @ [(Equal, A ! i)])
        = Some ((diff @ [(Equal, A ! i)]) @ map (Pair Equal) (drop (i + 1) A))"
      by simp
    with True "1.prems" show ?thesis
      by (subst backtrack.simps) (simp flip: Cons_nth_drop_Suc)
  next
    case False
    with "1.prems" show ?thesis by (subst backtrack.simps) simp
  qed
qed

lemma backtrack_blocks_identity:
  "B = A \<Longrightarrow> j = i \<Longrightarrow> backtrack_blocks A B i j diff = diff @ map (Pair Equal) (drop i A)"
proof (induction A B i j diff rule: backtrack_blocks.induct)
  case (1 A B i j diff)
  show ?case
  proof (cases "i < length A")
    case True
    with "1.prems" "1.IH"(1) have
      "backtrack_blocks A B (i + 1) (j + 1) (diff @ [(Equal, A ! i)])
        = (diff @ [(Equal, A ! i)]) @ map (Pair Equal) (drop (i + 1) A)"
      by simp
    with True "1.prems" show ?thesis
      by (subst backtrack_blocks.simps) (simp flip: Cons_nth_drop_Suc)
  next
    case False
    with "1.prems" show ?thesis by (subst backtrack_blocks.simps) simp
  qed
qed

lemma backtrack_empty_baseline:
  "A = [] \<Longrightarrow> i = 0 \<Longrightarrow> backtrack A B i j diff = Some (diff @ map (Pair Insert) (drop j B))"
proof (induction A B i j diff rule: backtrack.induct)
  case (1 A B i j diff)
  show ?case
  proof (cases "j < length B")
    case True
    with "1.prems" "1.IH"(2) have
      "backtrack A B i (j + 1) (diff @ [(Insert, B ! j)])
        = Some ((diff @ [(Insert, B ! j)]) @ map (Pair Insert) (drop (j + 1) B))"
      by simp
    with True "1.prems" show ?thesis
      by (subst backtrack.simps) (simp flip: Cons_nth_drop_Suc)
  next
    case False
    with "1.prems" show ?thesis by (subst backtrack.simps) simp
  qed
qed

lemma backtrack_empty_current:
  "B = [] \<Longrightarrow> j = 0 \<Longrightarrow> backtrack A B i j diff = Some (diff @ map (Pair Delete) (drop i A))"
proof (induction A B i j diff rule: backtrack.induct)
  case (1 A B i j diff)
  show ?case
  proof (cases "i < length A")
    case True
    with "1.prems" "1.IH"(3) have
      "backtrack A B (i + 1) j (diff @ [(Delete, A ! i)])
        = Some ((diff @ [(Delete, A ! i)]) @ map (Pair Delete) (drop (i + 1) A))"
      by simp
    with True "1.prems" show ?thesis
      by (subst backtrack.simps) (simp flip: Cons_nth_drop_Suc)
  next
    case False
    with "1.prems" show ?thesis by (subst backtrack.simps) simp
  qed
qed

lemma backtrack_blocks_empty_baseline:
  "backtrack_blocks [] B 0 0 [] = (if B = [] then [] else [(Insert, concat B)])"
  by (subst backtrack_blocks.simps) simp

lemma backtrack_blocks_empty_current:
  "backtrack_blocks A [] 0 0 [] = (if A = [] then [] else [(Delete, concat A)])"
  by (subst backtrack_blocks.simps) simp

lemma tokenize_empty: "tokenize [] = []"
  by (simp add: tokenize.simps)

section \<open>Properties of the side-by-side loop\<close>

text \<open>
  When the loop of compare\_view.js returns, it returns what the loop of the other file
  returns: the two differ in the branch that throws only.
\<close>

lemma render_loop_cv_returns:
  "render_loop_cv ops st = Inr st' \<Longrightarrow> st' = render_loop ops st"
  by (induction ops st rule: render_loop_cv.induct) auto

text \<open>Thrown or returned, the recorded changes are those of a state the loop went through.\<close>

lemma render_loop_cv_recorded:
  "\<exists>done. recorded_changes (render_loop_cv ops st) = allChanges (render_loop (take done ops) st)"
proof (induction ops st rule: render_loop_cv.induct, goal_cases)
  case (1 st)
  show ?case by (simp add: recorded_changes_def)
next
  case (2 v w rest st)
  then obtain k where
    "recorded_changes (render_loop_cv rest (render_change v w st))
       = allChanges (render_loop (take k rest) (render_change v w st))" by blast
  then have "recorded_changes (render_loop_cv ((Delete, v) # (Insert, w) # rest) st)
       = allChanges (render_loop (take (Suc (Suc k)) ((Delete, v) # (Insert, w) # rest)) st)"
    by simp
  then show ?case by blast
next
  case (3 v st)
  have "recorded_changes (render_loop_cv [(Delete, v)] st)
       = allChanges (render_loop (take 1 [(Delete, v)]) st)"
    by (simp add: recorded_changes_def)
  then show ?case by blast
next
  case (4 v vd vb st)
  then obtain k where
    k: "recorded_changes (render_loop_cv ((Equal, vd) # vb) (render_delete v st))
       = allChanges (render_loop (take k ((Equal, vd) # vb)) (render_delete v st))" by blast
  have "recorded_changes (render_loop_cv ((Delete, v) # (Equal, vd) # vb) st)
       = allChanges (render_loop (take (Suc k) ((Delete, v) # (Equal, vd) # vb)) st)"
    using k by (cases k) simp_all
  then show ?case by blast
next
  case (5 v vd vb st)
  then obtain k where
    k: "recorded_changes (render_loop_cv ((Delete, vd) # vb) (render_delete v st))
       = allChanges (render_loop (take k ((Delete, vd) # vb)) (render_delete v st))" by blast
  have "recorded_changes (render_loop_cv ((Delete, v) # (Delete, vd) # vb) st)
       = allChanges (render_loop (take (Suc k) ((Delete, v) # (Delete, vd) # vb)) st)"
    using k by (cases k) simp_all
  then show ?case by blast
next
  case (6 v rest st)
  have "recorded_changes (render_loop_cv ((Insert, v) # rest) st)
       = allChanges (render_loop (take 0 ((Insert, v) # rest)) st)"
    by (simp add: recorded_changes_def)
  then show ?case by blast
next
  case (7 v rest st)
  then obtain k where
    "recorded_changes (render_loop_cv rest (render_equal v st))
       = allChanges (render_loop (take k rest) (render_equal v st))" by blast
  then have "recorded_changes (render_loop_cv ((Equal, v) # rest) st)
       = allChanges (render_loop (take (Suc k) ((Equal, v) # rest)) st)"
    by simp
  then show ?case by blast
qed

subsection \<open>Decimal numerals\<close>

lemma decimal_nonempty: "decimal n \<noteq> []"
  by (subst decimal.simps) simp

lemma digit_char_inj: "a < 10 \<Longrightarrow> b < 10 \<Longrightarrow> digit_char a = digit_char b \<Longrightarrow> a = b"
  by (simp add: digit_char_def)

lemma decimal_inj: "decimal m = decimal n \<Longrightarrow> m = n"
proof (induction m arbitrary: n rule: decimal.induct)
  case (1 m)
  show ?case
  proof (cases "m < 10")
    case small: True
    show ?thesis
    proof (cases "n < 10")
      case True
      with small "1.prems" show ?thesis
        by (auto simp: decimal.simps[of m] decimal.simps[of n] dest: digit_char_inj)
    next
      case False
      with small "1.prems" show ?thesis
        using decimal_nonempty[of "n div 10"]
        by (auto simp: decimal.simps[of m] decimal.simps[of n])
    qed
  next
    case big: False
    show ?thesis
    proof (cases "n < 10")
      case True
      with big "1.prems" show ?thesis
        using decimal_nonempty[of "m div 10"]
        by (auto simp: decimal.simps[of m] decimal.simps[of n])
    next
      case False
      with big "1.prems" have "decimal (m div 10) = decimal (n div 10)"
        and d: "digit_char (m mod 10) = digit_char (n mod 10)"
        by (auto simp: decimal.simps[of m] decimal.simps[of n])
      with big "1.IH" have "m div 10 = n div 10" by simp
      moreover from d have "m mod 10 = n mod 10"
        using digit_char_inj [of "m mod 10" "n mod 10"] by simp
      ultimately show ?thesis by (metis div_mult_mod_eq)
    qed
  qed
qed

subsection \<open>Identifiers\<close>

lemma del_id_inj: "del_id m = del_id n \<Longrightarrow> m = n"
  by (simp add: del_id_def decimal_inj)

lemma add_id_inj: "add_id m = add_id n \<Longrightarrow> m = n"
  by (simp add: add_id_def decimal_inj)

lemma del_id_not_add_id: "del_id m \<noteq> add_id n"
proof
  assume "del_id m = add_id n"
  then have "last (del_id m) = last (add_id n)" by simp
  then show False by (simp add: del_id_def add_id_def)
qed

lemma numbered_steps:
  "numbered st \<Longrightarrow> numbered (render_change v w st)"
  "numbered st \<Longrightarrow> numbered (render_delete v st)"
  "numbered st \<Longrightarrow> numbered (render_insert v st)"
  "numbered st \<Longrightarrow> numbered (render_equal v st)"
  by (simp_all add: numbered_def id_pairs_def render_change_def render_delete_def
      render_insert_def render_equal_def Let_def)

lemma numbered_loop: "numbered st \<Longrightarrow> numbered (render_loop ops st)"
  by (induction ops st rule: render_loop.induct) (simp_all add: numbered_steps)

lemma numbered_initial: "numbered initial_state"
  by (simp add: numbered_def id_pairs_def initial_state_def)

lemma numbered_length: "numbered st \<Longrightarrow> changeCounter st = length (allChanges st)"
proof -
  assume "numbered st"
  then have "length (id_pairs st) = length (map (\<lambda>k. (del_id k, add_id k)) [0..<changeCounter st])"
    by (simp add: numbered_def)
  then show ?thesis by (simp add: id_pairs_def)
qed

lemma distinct_ids_upto:
  "distinct (concat (map (\<lambda>k. [del_id k, add_id k]) [0..<n]))"
proof (induction n)
  case 0
  show ?case by simp
next
  case (Suc n)
  have mem: "\<exists>k<n. x = del_id k \<or> x = add_id k"
    if "x \<in> set (concat (map (\<lambda>k. [del_id k, add_id k]) [0..<n]))" for x
    using that by auto
  have "del_id n \<notin> set (concat (map (\<lambda>k. [del_id k, add_id k]) [0..<n]))"
  proof
    assume "del_id n \<in> set (concat (map (\<lambda>k. [del_id k, add_id k]) [0..<n]))"
    from mem [OF this] obtain k where "k < n" "del_id n = del_id k \<or> del_id n = add_id k"
      by blast
    then show False using del_id_inj [of n k] del_id_not_add_id [of n k] by auto
  qed
  moreover have "add_id n \<notin> set (concat (map (\<lambda>k. [del_id k, add_id k]) [0..<n]))"
  proof
    assume "add_id n \<in> set (concat (map (\<lambda>k. [del_id k, add_id k]) [0..<n]))"
    from mem [OF this] obtain k where "k < n" "add_id n = del_id k \<or> add_id n = add_id k"
      by blast
    then show False using add_id_inj [of n k] del_id_not_add_id [of k n] by auto
  qed
  ultimately show ?case using Suc del_id_not_add_id [of n n] by simp
qed

lemma numbered_distinct:
  assumes "numbered st"
  shows "distinct (concat (map (\<lambda>c. [delId c, addId c]) (allChanges st)))"
proof -
  have "map (\<lambda>c. [delId c, addId c]) (allChanges st)
          = map (\<lambda>p. [fst p, snd p]) (id_pairs st)"
    by (simp add: id_pairs_def)
  also have "\<dots> = map (\<lambda>k. [del_id k, add_id k]) [0..<changeCounter st]"
    using assms by (simp add: numbered_def)
  finally show ?thesis by (simp add: distinct_ids_upto)
qed

subsection \<open>Escaped output\<close>

lemma amps_escaped_append:
  "amps_escaped xs \<Longrightarrow> amps_escaped ys \<Longrightarrow> amps_escaped (xs @ ys)"
  by (induction xs) (auto simp: prefix_def split: if_splits)

lemma amps_escaped_plain: "CHR ''&'' \<notin> set s \<Longrightarrow> amps_escaped s"
  by (induction s) auto

lemma replace_all_Cons: "replace_all c r (x # s) = (if x = c then r else [x]) @ replace_all c r s"
  by (simp add: replace_all_def)

lemma replace_all_append: "replace_all c r (s @ t) = replace_all c r s @ replace_all c r t"
  by (simp add: replace_all_def)

lemma replace_all_Nil: "replace_all c r [] = []"
  by (simp add: replace_all_def)

lemma esc_chars: "esc s = concat (map esc_char s)"
proof -
  have "replace_all CHR ''>'' ''&gt;'' (replace_all CHR ''<'' ''&lt;'' (replace_all CHR ''&'' ''&amp;'' s))
          = concat (map esc_char s)"
    by (induction s)
       (simp_all add: replace_all_Nil replace_all_Cons replace_all_append esc_char_def)
  then show ?thesis by (simp add: esc_def)
qed

lemma esc_no_angle: "CHR ''<'' \<notin> set (esc s) \<and> CHR ''>'' \<notin> set (esc s)"
  unfolding esc_chars by (induction s) (auto simp: esc_char_def)

lemma esc_amps: "amps_escaped (esc s)"
  unfolding esc_chars
  by (induction s) (auto simp: esc_char_def intro!: amps_escaped_append)

lemma decimal_digits: "c \<in> set (decimal n) \<Longrightarrow> 48 \<le> (of_char c :: nat) \<and> (of_char c :: nat) \<le> 57"
proof (induction n rule: decimal.induct)
  case (1 n)
  show ?case
  proof (cases "n < 10")
    case True
    with "1.prems" show ?thesis by (simp add: decimal.simps [of n] digit_char_def)
  next
    case False
    with "1.prems" have "c \<in> set (decimal (n div 10)) \<or> c = digit_char (n mod 10)"
      by (auto simp add: decimal.simps [of n])
    then show ?thesis
    proof
      assume "c \<in> set (decimal (n div 10))"
      with False "1.IH" show ?thesis by simp
    next
      assume "c = digit_char (n mod 10)"
      moreover have "n mod 10 < 10" by simp
      ultimately show ?thesis by (simp add: digit_char_def)
    qed
  qed
qed

lemma ids_plain:
  "CHR ''<'' \<notin> set (del_id k)" "CHR ''>'' \<notin> set (del_id k)" "CHR ''&'' \<notin> set (del_id k)"
  "CHR ''<'' \<notin> set (add_id k)" "CHR ''>'' \<notin> set (add_id k)" "CHR ''&'' \<notin> set (add_id k)"
  using decimal_digits [of "CHR ''<''" k] decimal_digits [of "CHR ''>''" k]
    decimal_digits [of "CHR ''&''" k]
  by (auto simp: del_id_def add_id_def)

lemma count_list_plain: "c \<notin> set s \<Longrightarrow> count_list s c = 0"
  by (simp add: count_list_0_iff)

lemma pane_escaped_text:
  "pane_escaped pane n \<Longrightarrow> pane_escaped (pane @ esc v) n"
  using esc_no_angle [of v]
  by (simp add: pane_escaped_def count_list_plain amps_escaped_append esc_amps)

lemma span_escaped:
  assumes "CHR ''<'' \<notin> set ident" "CHR ''>'' \<notin> set ident" "CHR ''&'' \<notin> set ident"
    and "cls \<in> {''diff-deleted'', ''diff-added'', ''diff-placeholder''}"
    and "CHR ''<'' \<notin> set body" "CHR ''>'' \<notin> set body" "amps_escaped body"
  shows "pane_escaped (span cls ident body) 1"
proof -
  have cls: "CHR ''<'' \<notin> set cls" "CHR ''>'' \<notin> set cls" "CHR ''&'' \<notin> set cls"
    using assms(4) by auto
  have pre: "amps_escaped (''<span class=\"'' @ cls @ ''\" id=\"'' @ ident @ ''\">'')"
    using cls assms(3) by (intro amps_escaped_plain) simp
  have post: "amps_escaped ''</span>''" by simp
  from amps_escaped_append [OF pre amps_escaped_append [OF assms(7) post]]
  have "amps_escaped (span cls ident body)" by (simp add: span_def)
  then show ?thesis
    using cls assms(1,2,5,6) by (simp add: pane_escaped_def span_def count_list_plain)
qed

lemma pane_escaped_append:
  "pane_escaped p n \<Longrightarrow> pane_escaped q m \<Longrightarrow> pane_escaped (p @ q) (n + m)"
  by (simp add: pane_escaped_def amps_escaped_append)

lemma pane_escaped_span:
  assumes "pane_escaped pane n"
    and "ident = del_id k \<or> ident = add_id k"
    and "cls \<in> {''diff-deleted'', ''diff-added'', ''diff-placeholder''}"
    and "body = ''&nbsp;'' \<or> body = esc v"
  shows "pane_escaped (pane @ span cls ident body) (Suc n)"
proof -
  have b: "CHR ''<'' \<notin> set body" "CHR ''>'' \<notin> set body" "amps_escaped body"
    using assms(4) esc_no_angle [of v] esc_amps [of v] by auto
  have i: "CHR ''<'' \<notin> set ident" "CHR ''>'' \<notin> set ident" "CHR ''&'' \<notin> set ident"
    using assms(2) ids_plain [of k] by auto
  from pane_escaped_append [OF assms(1) span_escaped [OF i assms(3) b]]
  show ?thesis by simp
qed

lemma escaped_steps:
  assumes "escaped_state st"
  shows "escaped_state (render_change v w st)"
    and "escaped_state (render_delete v st)"
    and "escaped_state (render_insert v st)"
    and "escaped_state (render_equal v st)"
proof -
  from assms have b: "pane_escaped (baselineContent st) (length (allChanges st))"
    and c: "pane_escaped (currentContent st) (length (allChanges st))"
    by (simp_all add: escaped_state_def)
  let ?k = "changeCounter st"
  have del: "pane_escaped (baselineContent st @ span ''diff-deleted'' (del_id ?k) (esc x))
      (Suc (length (allChanges st)))" for x
    by (rule pane_escaped_span [OF b, of _ ?k _ _ x]) simp_all
  have add: "pane_escaped (currentContent st @ span ''diff-added'' (add_id ?k) (esc x))
      (Suc (length (allChanges st)))" for x
    by (rule pane_escaped_span [OF c, of _ ?k _ _ x]) simp_all
  have pb: "pane_escaped (baselineContent st @ span ''diff-placeholder'' (del_id ?k) ''&nbsp;'')
      (Suc (length (allChanges st)))"
    by (rule pane_escaped_span [OF b, of _ ?k _ _ "[]"]) simp_all
  have pc: "pane_escaped (currentContent st @ span ''diff-placeholder'' (add_id ?k) ''&nbsp;'')
      (Suc (length (allChanges st)))"
    by (rule pane_escaped_span [OF c, of _ ?k _ _ "[]"]) simp_all
  show "escaped_state (render_change v w st)"
    using del add by (simp add: escaped_state_def render_change_def Let_def)
  show "escaped_state (render_delete v st)"
    using del pc by (simp add: escaped_state_def render_delete_def Let_def)
  show "escaped_state (render_insert v st)"
    using pb add by (simp add: escaped_state_def render_insert_def Let_def)
  show "escaped_state (render_equal v st)"
    using b c by (simp add: escaped_state_def render_equal_def pane_escaped_text)
qed

lemma escaped_loop: "escaped_state st \<Longrightarrow> escaped_state (render_loop ops st)"
  by (induction ops st rule: render_loop.induct) (simp_all add: escaped_steps)

lemma escaped_initial: "escaped_state initial_state"
  by (simp add: escaped_state_def pane_escaped_def initial_state_def)

text \<open>Reading the entities back, and the panes without their markers.\<close>

lemma unescape_esc_append: "unescape (concat (map esc_char s) @ ys) = s @ unescape ys"
  by (induction s) (simp_all add: esc_char_def)

lemma unescape_esc: "unescape (esc s) = s"
  using unescape_esc_append [of s "[]"] by (simp add: esc_chars)

lemma text_only_plain: "CHR ''<'' \<notin> set xs \<Longrightarrow> text_only False (xs @ ys) = xs @ text_only False ys"
  by (induction xs) auto

lemma text_only_marker:
  "CHR ''>'' \<notin> set xs \<Longrightarrow> text_only True (xs @ CHR ''>'' # ys) = text_only False ys"
  by (induction xs) auto

lemma text_only_span:
  assumes cls: "CHR ''>'' \<notin> set cls" and ident: "CHR ''>'' \<notin> set ident"
    and body: "CHR ''<'' \<notin> set body"
  shows "text_only False (span cls ident body @ ys) = body @ text_only False ys"
proof -
  let ?open = "''span class=\"'' @ cls @ ''\" id=\"'' @ ident @ ''\"''"
  have o: "CHR ''>'' \<notin> set ?open" using cls ident by simp
  have eq: "span cls ident body @ ys
      = CHR ''<'' # ?open @ CHR ''>'' # (body @ (CHR ''<'' # ''/span'' @ CHR ''>'' # ys))"
    by (simp add: span_def)
  have a: "text_only False (CHR ''<'' # ?open @ CHR ''>'' # zs) = text_only False zs" for zs
    using text_only_marker [OF o, of zs] by simp
  have b: "text_only False (CHR ''<'' # ''/span'' @ CHR ''>'' # ys) = text_only False ys"
    by simp
  show ?thesis unfolding eq by (simp only: a text_only_plain [OF body] b)
qed

lemma text_only_span_end:
  "CHR ''>'' \<notin> set cls \<Longrightarrow> CHR ''>'' \<notin> set ident \<Longrightarrow> CHR ''<'' \<notin> set body \<Longrightarrow>
   text_only False (span cls ident body) = body"
  using text_only_span [of cls ident body "[]"] by simp

lemma text_only_plain_end: "CHR ''<'' \<notin> set xs \<Longrightarrow> text_only False xs = xs"
  using text_only_plain [of xs "[]"] by simp

text \<open>
  What the loop appends to the two panes, as functions of the counter and of the
  operations that are left.
\<close>

fun baseline_pane :: "nat \<Rightarrow> operation list \<Rightarrow> string" where
  "baseline_pane k [] = []"
| "baseline_pane k ((Delete, v) # (Insert, w) # rest) =
     span ''diff-deleted'' (del_id k) (esc v) @ baseline_pane (k + 1) rest"
| "baseline_pane k ((Delete, v) # rest) =
     span ''diff-deleted'' (del_id k) (esc v) @ baseline_pane (k + 1) rest"
| "baseline_pane k ((Insert, v) # rest) =
     span ''diff-placeholder'' (del_id k) ''&nbsp;'' @ baseline_pane (k + 1) rest"
| "baseline_pane k ((Equal, v) # rest) = esc v @ baseline_pane k rest"

fun current_pane :: "nat \<Rightarrow> operation list \<Rightarrow> string" where
  "current_pane k [] = []"
| "current_pane k ((Delete, v) # (Insert, w) # rest) =
     span ''diff-added'' (add_id k) (esc w) @ current_pane (k + 1) rest"
| "current_pane k ((Delete, v) # rest) =
     span ''diff-placeholder'' (add_id k) ''&nbsp;'' @ current_pane (k + 1) rest"
| "current_pane k ((Insert, v) # rest) =
     span ''diff-added'' (add_id k) (esc v) @ current_pane (k + 1) rest"
| "current_pane k ((Equal, v) # rest) = esc v @ current_pane k rest"

lemma render_loop_panes:
  "baselineContent (render_loop ops st) = baselineContent st @ baseline_pane (changeCounter st) ops \<and>
   currentContent (render_loop ops st) = currentContent st @ current_pane (changeCounter st) ops"
  by (induction ops st rule: render_loop.induct)
     (simp_all add: render_change_def render_delete_def render_insert_def render_equal_def Let_def)

lemma baseline_pane_text: "text_only False (baseline_pane k ops) = left_text ops"
  using esc_no_angle
  by (induction k ops rule: baseline_pane.induct)
     (simp_all add: text_only_span text_only_plain text_only_span_end text_only_plain_end
        ids_plain)

lemma current_pane_text: "text_only False (current_pane k ops) = right_text ops"
  using esc_no_angle
  by (induction k ops rule: current_pane.induct)
     (simp_all add: text_only_span text_only_plain text_only_span_end text_only_plain_end
        ids_plain)

lemma panes_text:
  "text_only False (baselineContent (render_loop ops initial_state)) = left_text ops \<and>
   text_only False (currentContent (render_loop ops initial_state)) = right_text ops"
  by (simp add: render_loop_panes baseline_pane_text current_pane_text initial_state_def)

section \<open>The operations behind each change\<close>

lemma members_cover: "concat (members p ops) = filter non_equal (enumerate p ops)"
  by (induction p ops rule: members.induct) (simp_all add: non_equal_def)

lemma members_types:
  "map change_type (allChanges (render_loop ops st))
     = map change_type (allChanges st) @ map member_type (members p ops)"
  by (induction ops st arbitrary: p rule: render_loop.induct)
     (simp_all add: member_type_def render_change_def render_delete_def render_insert_def
        render_equal_def Let_def)

section \<open>The look-ahead and the tie-break\<close>

subsection \<open>The table decreases along rows and columns\<close>

lemma dp_outside: "\<not> (i < length A \<and> j < length B) \<Longrightarrow> dp A B i j = 0"
  by (subst dp.simps) (simp only: if_False)

lemma dp_equal: "i < length A \<Longrightarrow> j < length B \<Longrightarrow> A ! i = B ! j
    \<Longrightarrow> dp A B i j = 1 + dp A B (i + 1) (j + 1)"
  by (simp add: dp.simps [of A B i j])

lemma dp_differ: "i < length A \<Longrightarrow> j < length B \<Longrightarrow> A ! i \<noteq> B ! j
    \<Longrightarrow> dp A B i j = max (dp A B (i + 1) j) (dp A B i (j + 1))"
  by (simp add: dp.simps [of A B i j])

lemma dp_neighbours:
  "dp A B (i + 1) j \<le> dp A B i j \<and> dp A B i (j + 1) \<le> dp A B i j \<and>
   dp A B i j \<le> 1 + dp A B (i + 1) (j + 1)"
proof (induction "(length A - i) + (length B - j)" arbitrary: i j rule: less_induct)
  case less
  show ?case
  proof (cases "i < length A \<and> j < length B")
    case False
    then have "dp A B i j = 0" "dp A B (i + 1) j = 0" "dp A B i (j + 1) = 0"
      by (auto intro: dp_outside)
    then show ?thesis by simp
  next
    case True
    then have in_i: "i < length A" and in_j: "j < length B" by simp_all
    have down: "dp A B (i + 1 + 1) (j + 1) \<le> dp A B (i + 1) (j + 1)"
      and right: "dp A B (i + 1) (j + 1 + 1) \<le> dp A B (i + 1) (j + 1)"
      using less [of "i + 1" "j + 1"] in_i in_j by simp_all
    have "dp A B (i + 1) j \<le> 1 + dp A B (i + 1 + 1) (j + 1)"
      using less [of "i + 1" j] in_i by simp
    with down have a: "dp A B (i + 1) j \<le> 1 + dp A B (i + 1) (j + 1)" by simp
    have "dp A B i (j + 1) \<le> 1 + dp A B (i + 1) (j + 1 + 1)"
      using less [of i "j + 1"] in_j by simp
    with right have b: "dp A B i (j + 1) \<le> 1 + dp A B (i + 1) (j + 1)" by simp
    show ?thesis
    proof (cases "A ! i = B ! j")
      case True
      with a b dp_equal [OF in_i in_j True] show ?thesis by simp
    next
      case False
      with a b dp_differ [OF in_i in_j False] show ?thesis by simp
    qed
  qed
qed

lemma dp_mono_row: "i \<le> r \<Longrightarrow> dp A B r c \<le> dp A B i c"
proof (induction r rule: dec_induct)
  case base
  show ?case by simp
next
  case (step n)
  have "dp A B (Suc n) c \<le> dp A B n c" using dp_neighbours [of A B n c] by simp
  with step show ?case by simp
qed

lemma dp_mono_col: "j \<le> c \<Longrightarrow> dp A B r c \<le> dp A B r j"
proof (induction c rule: dec_induct)
  case base
  show ?case by simp
next
  case (step n)
  have "dp A B r (Suc n) \<le> dp A B r n" using dp_neighbours [of A B r n] by simp
  with step show ?case by simp
qed

subsection \<open>The look-ahead walks the cells of the tie-break\<close>

lemma lookahead_follows_cells:
  assumes "i \<le> r" "j \<le> c" "dp A B r c = dp A B i j"
    and "i < r \<Longrightarrow> dp A B i (c + 1) < dp A B i j"
  shows "lookahead A B i j r c = lookahead_by_cells A B r c"
  using assms
proof (induction A B i j r c rule: lookahead.induct)
  case (1 A B i j r c)
  show ?case
  proof (cases "r < length A \<and> c < length B \<and> A ! r \<noteq> B ! c")
    case False
    then show ?thesis
      by (subst lookahead.simps, subst lookahead_by_cells.simps) auto
  next
    case True
    then have in_r: "r < length A" and in_c: "c < length B" and ne: "A ! r \<noteq> B ! c"
      by simp_all
    let ?L = "dp A B i j"
    have top: "max (dp A B (r + 1) c) (dp A B r (c + 1)) = ?L"
      using dp_differ [OF in_r in_c ne] "1.prems"(3) by simp
    have below_le: "dp A B (r + 1) j \<le> ?L"
      using dp_mono_row [of i "r + 1" A B j] "1.prems"(1) by simp
    have right_le: "dp A B i (c + 1) \<le> ?L"
      using dp_mono_col [of j "c + 1" A B i] "1.prems"(2) by simp
    have col: "dp A B (r + 1) c \<le> dp A B (r + 1) j"
      using dp_mono_col [of j c A B "r + 1"] "1.prems"(2) by simp
    have row: "dp A B r (c + 1) \<le> dp A B i (c + 1)"
      using dp_mono_row [of i r A B "c + 1"] "1.prems"(1) by simp
    show ?thesis
    proof (cases "dp A B (r + 1) j > dp A B i (c + 1)")
      case up: True
      then have lt: "dp A B i (c + 1) < ?L" using below_le by simp
      with row have "dp A B r (c + 1) < ?L" by simp
      with top have cell: "dp A B (r + 1) c = ?L" "\<not> dp A B r (c + 1) \<ge> dp A B (r + 1) c"
        by (auto simp: max_def split: if_splits)
      have "lookahead A B i j (r + 1) c = lookahead_by_cells A B (r + 1) c"
        using "1.IH"(1) True up "1.prems"(1,2) cell(1) lt by simp
      with True up cell(2) show ?thesis
        by (subst lookahead.simps, subst lookahead_by_cells.simps) simp
    next
      case stay: False
      have right_full: "dp A B r (c + 1) = ?L"
      proof (rule ccontr)
        assume "dp A B r (c + 1) \<noteq> ?L"
        with top have low: "dp A B r (c + 1) < ?L" and full: "dp A B (r + 1) c = ?L"
          by (auto simp: max_def split: if_splits)
        from full col below_le have "dp A B (r + 1) j = ?L" by simp
        moreover have "dp A B i (c + 1) < ?L"
        proof (cases "i < r")
          case True
          then show ?thesis using "1.prems"(4) by simp
        next
          case False
          with "1.prems"(1) have "r = i" by simp
          with low show ?thesis by simp
        qed
        ultimately show False using stay by simp
      qed
      with top have cell: "dp A B r (c + 1) \<ge> dp A B (r + 1) c" by simp
      have keep: "dp A B i (c + 1 + 1) < ?L" if "i < r"
      proof -
        have "dp A B i (c + 1 + 1) \<le> dp A B i (c + 1)"
          using dp_neighbours [of A B i "c + 1"] by simp
        with "1.prems"(4) [OF that] show ?thesis by simp
      qed
      have "lookahead A B i j r (c + 1) = lookahead_by_cells A B r (c + 1)"
        using "1.IH"(2) True stay "1.prems"(1,2) right_full keep by simp
      with True stay cell show ?thesis
        by (subst lookahead.simps, subst lookahead_by_cells.simps) simp
    qed
  qed
qed

lemma lookahead_is_tie_break: "lookahead A B i j i j = lookahead_by_cells A B i j"
  by (rule lookahead_follows_cells) simp_all

section \<open>The alignments keep a longest common subsequence\<close>

lemma equal_payloads_append: "equal_payloads (xs @ ys) = equal_payloads xs @ equal_payloads ys"
  by (simp add: equal_payloads_def)

lemma equal_payloads_single [simp]:
  "equal_payloads [(Equal, v)] = [v]" "equal_payloads [(Delete, v)] = []"
  "equal_payloads [(Insert, v)] = []"
  by (simp_all add: equal_payloads_def)

lemma equal_payloads_push_if [simp]:
  "equal_payloads (push_if d Delete p) = equal_payloads d"
  "equal_payloads (push_if d Insert p) = equal_payloads d"
  by (simp_all add: push_if_def equal_payloads_append)

lemma drop_step: "i < length A \<Longrightarrow> drop i A = A ! i # drop (i + 1) A"
  by (simp add: Cons_nth_drop_Suc)

lemma dp_bound:
  "subseq xs (drop i A) \<Longrightarrow> subseq xs (drop j B) \<Longrightarrow> length xs \<le> dp A B i j"
proof (induction A B i j arbitrary: xs rule: dp.induct)
  case (1 A B i j)
  show ?case
  proof (cases "i < length A \<and> j < length B")
    case False
    then have "drop i A = [] \<or> drop j B = []" by auto
    with "1.prems" have "xs = []" by auto
    then show ?thesis by simp
  next
    case True
    then have in_i: "i < length A" and in_j: "j < length B" by simp_all
    note da = drop_step [OF in_i] and db = drop_step [OF in_j]
    show ?thesis
    proof (cases xs)
      case Nil
      then show ?thesis by simp
    next
      case (Cons x xs')
      show ?thesis
      proof (cases "A ! i = B ! j")
        case same: True
        have "length xs' \<le> dp A B (i + 1) (j + 1)"
        proof (cases "x = A ! i")
          case True
          with "1.prems" Cons da db same
          have "subseq xs' (drop (i + 1) A)" "subseq xs' (drop (j + 1) B)" by simp_all
          with "1.IH"(1) in_i in_j same show ?thesis by simp
        next
          case False
          with "1.prems" Cons da db same
          have "subseq (x # xs') (drop (i + 1) A)" "subseq (x # xs') (drop (j + 1) B)"
            by simp_all
          with "1.IH"(1) [of "x # xs'"] in_i in_j same show ?thesis by simp
        qed
        with Cons dp_equal [OF in_i in_j same] show ?thesis by simp
      next
        case differ: False
        show ?thesis
        proof (cases "x = A ! i")
          case True
          with differ "1.prems" Cons db have "subseq xs (drop (j + 1) B)" by simp
          with "1.IH"(3) "1.prems"(1) in_i in_j differ have "length xs \<le> dp A B i (j + 1)"
            by simp
          with dp_differ [OF in_i in_j differ] show ?thesis by simp
        next
          case False
          with "1.prems" Cons da have "subseq xs (drop (i + 1) A)" by simp
          with "1.IH"(2) "1.prems"(2) in_i in_j differ have "length xs \<le> dp A B (i + 1) j"
            by simp
          with dp_differ [OF in_i in_j differ] show ?thesis by simp
        qed
      qed
    qed
  qed
qed

lemma subseq_drop_more: "i \<le> k \<Longrightarrow> subseq es (drop k A) \<Longrightarrow> subseq es (drop i A)"
proof -
  assume "i \<le> k" and es: "subseq es (drop k A)"
  then have "drop k A = drop (k - i) (drop i A)" by simp
  then have "drop i A = take (k - i) (drop i A) @ drop k A" by (metis append_take_drop_id)
  with subseq_drop_many [OF es, of "take (k - i) (drop i A)"] show ?thesis by simp
qed

lemma backtrack_lcs:
  "\<exists>ops es. backtrack A B i j diff = Some ops \<and>
     equal_payloads ops = equal_payloads diff @ es \<and>
     subseq es (drop i A) \<and> subseq es (drop j B) \<and> length es = dp A B i j"
proof (induction A B i j diff rule: backtrack.induct)
  case (1 A B i j diff)
  consider
    (stop) "\<not> (i < length A \<or> j < length B)"
  | (eq) "i < length A" "j < length B" "A ! i = B ! j"
  | (ins) "i < length A \<or> j < length B" "\<not> (i < length A \<and> j < length B \<and> A ! i = B ! j)"
      "j < length B \<and> (i = length A \<or> dp A B i (j + 1) \<ge> dp A B (i + 1) j)"
  | (del) "i < length A \<or> j < length B" "\<not> (i < length A \<and> j < length B \<and> A ! i = B ! j)"
      "\<not> (j < length B \<and> (i = length A \<or> dp A B i (j + 1) \<ge> dp A B (i + 1) j))"
      "i < length A"
  | (stuck) "i < length A \<or> j < length B" "\<not> (i < length A \<and> j < length B \<and> A ! i = B ! j)"
      "\<not> (j < length B \<and> (i = length A \<or> dp A B i (j + 1) \<ge> dp A B (i + 1) j))"
      "\<not> i < length A"
    by blast
  then show ?case
  proof cases
    case stop
    then have "dp A B i j = 0" by (auto intro: dp_outside)
    with stop show ?thesis by (subst backtrack.simps) simp
  next
    case eq
    from "1.IH"(1) eq obtain ops es where ih:
      "backtrack A B (i + 1) (j + 1) (diff @ [(Equal, A ! i)]) = Some ops"
      "equal_payloads ops = equal_payloads (diff @ [(Equal, A ! i)]) @ es"
      "subseq es (drop (i + 1) A)" "subseq es (drop (j + 1) B)"
      "length es = dp A B (i + 1) (j + 1)"
      by auto
    have "subseq (A ! i # es) (drop i A)" "subseq (A ! i # es) (drop j B)"
      using ih(3,4) eq by (simp_all add: drop_step)
    moreover have "length (A ! i # es) = dp A B i j"
      using ih(5) dp_equal [OF eq] by simp
    moreover have "equal_payloads ops = equal_payloads diff @ (A ! i # es)"
      using ih(2) by (simp add: equal_payloads_append)
    moreover have "backtrack A B i j diff = Some ops"
      using ih(1) eq by (subst backtrack.simps) simp
    ultimately show ?thesis by blast
  next
    case ins
    from "1.IH"(2) ins obtain ops es where ih:
      "backtrack A B i (j + 1) (diff @ [(Insert, B ! j)]) = Some ops"
      "equal_payloads ops = equal_payloads (diff @ [(Insert, B ! j)]) @ es"
      "subseq es (drop i A)" "subseq es (drop (j + 1) B)"
      "length es = dp A B i (j + 1)"
      by auto
    have "dp A B i j = dp A B i (j + 1)"
    proof (cases "i < length A")
      case True
      with ins have "A ! i \<noteq> B ! j" "dp A B i (j + 1) \<ge> dp A B (i + 1) j" by auto
      with dp_differ [OF True _ this(1)] ins show ?thesis by simp
    next
      case False
      then show ?thesis by (simp add: dp_outside)
    qed
    moreover have "subseq es (drop j B)"
      using ih(4) by (rule subseq_drop_more [rotated]) simp
    moreover have "equal_payloads ops = equal_payloads diff @ es"
      using ih(2) by (simp add: equal_payloads_append)
    moreover have "backtrack A B i j diff = Some ops"
      using ih(1) ins by (subst backtrack.simps) auto
    ultimately show ?thesis using ih(3,5) by auto
  next
    case del
    from "1.IH"(3) del obtain ops es where ih:
      "backtrack A B (i + 1) j (diff @ [(Delete, A ! i)]) = Some ops"
      "equal_payloads ops = equal_payloads (diff @ [(Delete, A ! i)]) @ es"
      "subseq es (drop (i + 1) A)" "subseq es (drop j B)"
      "length es = dp A B (i + 1) j"
      by auto
    have "dp A B i j = dp A B (i + 1) j"
    proof (cases "j < length B")
      case True
      with del have "A ! i \<noteq> B ! j" "\<not> dp A B i (j + 1) \<ge> dp A B (i + 1) j" by auto
      with dp_differ [OF del(4) True this(1)] show ?thesis by simp
    next
      case False
      then show ?thesis by (simp add: dp_outside)
    qed
    moreover have "subseq es (drop i A)"
      using ih(3) by (rule subseq_drop_more [rotated]) simp
    moreover have "equal_payloads ops = equal_payloads diff @ es"
      using ih(2) by (simp add: equal_payloads_append)
    moreover have "backtrack A B i j diff = Some ops"
      using ih(1) del by (subst backtrack.simps) auto
    ultimately show ?thesis using ih(4,5) by auto
  next
    case stuck
    then have "j < length B" "i > length A" by auto
    then have "dp A B i (j + 1) = 0" "dp A B (i + 1) j = 0" by (simp_all add: dp_outside)
    with stuck show ?thesis by simp
  qed
qed

lemma lookahead_by_cells_keeps:
  "lookahead_by_cells A B r c = (r', c') \<Longrightarrow> r \<le> r' \<and> c \<le> c' \<and> dp A B r' c' = dp A B r c"
proof (induction A B r c rule: lookahead_by_cells.induct)
  case (1 A B r c)
  show ?case
  proof (cases "r < length A \<and> c < length B \<and> A ! r \<noteq> B ! c")
    case False
    with "1.prems" show ?thesis by (simp add: lookahead_by_cells.simps [of A B r c])
  next
    case True
    then have d: "dp A B r c = max (dp A B (r + 1) c) (dp A B r (c + 1))"
      by (simp add: dp_differ)
    show ?thesis
    proof (cases "dp A B r (c + 1) \<ge> dp A B (r + 1) c")
      case right: True
      with True "1.prems" have "lookahead_by_cells A B r (c + 1) = (r', c')"
        by (simp add: lookahead_by_cells.simps [of A B r c])
      with "1.IH"(1) True right d show ?thesis by fastforce
    next
      case down: False
      with True "1.prems" have "lookahead_by_cells A B (r + 1) c = (r', c')"
        by (simp add: lookahead_by_cells.simps [of A B r c])
      with "1.IH"(2) True down d show ?thesis by fastforce
    qed
  qed
qed

lemma backtrack_blocks_lcs:
  "\<exists>es. equal_payloads (backtrack_blocks A B i j diff) = equal_payloads diff @ es \<and>
     subseq es (drop i A) \<and> subseq es (drop j B) \<and> length es = dp A B i j"
proof (induction A B i j diff rule: backtrack_blocks.induct)
  case (1 A B i j diff)
  show ?case
  proof (cases "i < length A \<and> j < length B")
    case False
    then have "dp A B i j = 0" by (rule dp_outside)
    moreover from False have "equal_payloads (backtrack_blocks A B i j diff) = equal_payloads diff"
      by (subst backtrack_blocks.simps) (auto simp: Let_def equal_payloads_append)
    ultimately show ?thesis by simp
  next
    case inside: True
    then have in_i: "i < length A" and in_j: "j < length B" by simp_all
    show ?thesis
    proof (cases "A ! i = B ! j")
      case True
      from "1.IH"(1) inside True obtain es where ih:
        "equal_payloads (backtrack_blocks A B (i + 1) (j + 1) (diff @ [(Equal, A ! i)]))
           = equal_payloads (diff @ [(Equal, A ! i)]) @ es"
        "subseq es (drop (i + 1) A)" "subseq es (drop (j + 1) B)"
        "length es = dp A B (i + 1) (j + 1)"
        by auto
      have "subseq (A ! i # es) (drop i A)" "subseq (A ! i # es) (drop j B)"
        using ih(2,3) in_i in_j True by (simp_all add: drop_step)
      moreover have "length (A ! i # es) = dp A B i j"
        using ih(4) dp_equal [OF in_i in_j True] by simp
      moreover have "equal_payloads (backtrack_blocks A B i j diff)
                       = equal_payloads diff @ (A ! i # es)"
        using ih(1) inside True
        by (subst backtrack_blocks.simps) (simp add: equal_payloads_append)
      ultimately show ?thesis by blast
    next
      case False
      obtain iEnd jEnd where la: "lookahead A B i j i j = (iEnd, jEnd)"
        by (cases "lookahead A B i j i j")
      then have "lookahead_by_cells A B i j = (iEnd, jEnd)"
        by (simp add: lookahead_is_tie_break)
      from lookahead_by_cells_keeps [OF this]
      have le: "i \<le> iEnd" "j \<le> jEnd" and same: "dp A B iEnd jEnd = dp A B i j" by simp_all
      from "1.IH"(2) [OF inside False la [symmetric]] obtain es where ih:
        "equal_payloads (backtrack_blocks A B iEnd jEnd
            (push_if (push_if diff Delete (concat (slice A i iEnd))) Insert (concat (slice B j jEnd))))
           = equal_payloads diff @ es"
        "subseq es (drop iEnd A)" "subseq es (drop jEnd B)" "length es = dp A B iEnd jEnd"
        by auto
      have "equal_payloads (backtrack_blocks A B i j diff) = equal_payloads diff @ es"
        using ih(1) inside False la by (subst backtrack_blocks.simps) simp
      moreover have "subseq es (drop i A)" "subseq es (drop j B)"
        using ih(2,3) le by (auto intro: subseq_drop_more)
      ultimately show ?thesis using ih(4) same by auto
    qed
  qed
qed

section \<open>Evaluation on concrete inputs\<close>

lemmas tok_eval = tokenize.simps match_token_def match_tag_def match_word_def match_run_def match_attr_value_def is_word_def is_space_def is_punct_def is_quote_def
lemmas tokh_eval = tokenizeHTML.simps match_html_def match_tag_def match_run_def mk_token_def trim_def is_word_def is_space_def

lemmas align_eval = dp.simps backtrack.simps lookahead.simps backtrack_blocks.simps
  diffTokens_def diffTokens_merged_def slice_def push_if_def base_side_def current_side_def


lemma decimal_small: "decimal 0 = ''0''" "decimal (Suc 0) = ''1''" "decimal (Suc (Suc 0)) = ''2''"
  by code_simp+

section \<open>The claims\<close>

subsection \<open>C1: what the tokens add up to\<close>

text \<open>
  C1, as amended. The tokens of \<open>tokenize s\<close> are the kept pieces of the scan of \<open>s\<close>: the
  input is cut into consecutive pieces that add up to \<open>s\<close> exactly; each token is the
  whole match of the expression at its position (a tag, a word with its quoted value, a
  run of white space or a run of punctuation, never a part of one); and the only
  characters left out are single angle brackets at positions where the scan finds no
  match: a \<^verbatim>\<open>>\<close>, or a \<^verbatim>\<open><\<close> that opens no tag. Such a scan exists for every \<open>s\<close>, and every
  such scan gives the tokens. For \<open>tokenizeHTML\<close> the same holds with its own expression;
  what is left out is a \<^verbatim>\<open><\<close> that opens no tag, or a whole match made of white space only,
  and a match that holds any other character is a token, white space included. Hence the
  concatenation of the tokens is a subsequence of \<open>s\<close> that keeps, in order, every
  character other than \<^verbatim>\<open><\<close> and \<^verbatim>\<open>>\<close> (for \<open>tokenizeHTML\<close>: every character that is neither
  \<^verbatim>\<open><\<close> nor white space), and a string without angle brackets is reproduced exactly.
\<close>

theorem tokenize_reconstruction_amended:
  "(\<exists>ps. scanned ps \<and> concat (map snd ps) = s) \<and>
   (\<forall>ps. scanned ps \<and> concat (map snd ps) = s \<longrightarrow> tokenize s = map snd (filter fst ps)) \<and>
   (\<exists>ps. scanned_html ps \<and> concat (map snd ps) = s) \<and>
   (\<forall>ps. scanned_html ps \<and> concat (map snd ps) = s \<longrightarrow>
      map content (tokenizeHTML s) = map snd (filter fst ps) \<and>
      tokenizeHTML s = map mk_token (map snd (filter fst ps))) \<and>
   subseq (concat (tokenize s)) s \<and>
   filter not_angle (concat (tokenize s)) = filter not_angle s \<and>
   concat (tokenize (filter not_angle s)) = filter not_angle s \<and>
   subseq (concat (map content (tokenizeHTML s))) s \<and>
   filter kept_html (concat (map content (tokenizeHTML s))) = filter kept_html s"
proof -
  have c0: "content (mk_token t) = t" for t by (simp add: mk_token_def)
  have u1: "\<forall>ps. scanned ps \<and> concat (map snd ps) = s \<longrightarrow>
      tokenize s = map snd (filter fst ps)"
  proof (intro allI impI)
    fix ps assume "scanned ps \<and> concat (map snd ps) = s"
    then show "tokenize s = map snd (filter fst ps)" using scanned_tokens [of ps] by simp
  qed
  have u2: "\<forall>ps. scanned_html ps \<and> concat (map snd ps) = s \<longrightarrow>
      map content (tokenizeHTML s) = map snd (filter fst ps) \<and>
      tokenizeHTML s = map mk_token (map snd (filter fst ps))"
  proof (intro allI impI)
    fix ps assume "scanned_html ps \<and> concat (map snd ps) = s"
    then show "map content (tokenizeHTML s) = map snd (filter fst ps) \<and>
      tokenizeHTML s = map mk_token (map snd (filter fst ps))"
      using scanned_html_tokens [of ps] by (simp add: c0)
  qed
  let ?t = "filter not_angle s"
  let ?x = "concat (tokenize ?t)"
  have "filter not_angle ?x = ?t" by (simp add: tokenize_keeps)
  then have "length ?t \<le> length ?x" by (metis length_filter_le)
  moreover have sub: "subseq ?x ?t" by (rule tokenize_subseq)
  then have "length ?x \<le> length ?t" by (rule list_emb_length)
  ultimately have "?x = ?t" using sub by (simp add: subseq_same_length)
  then have old:
    "subseq (concat (tokenize s)) s \<and>
     filter not_angle (concat (tokenize s)) = filter not_angle s \<and>
     concat (tokenize (filter not_angle s)) = filter not_angle s \<and>
     subseq (concat (map content (tokenizeHTML s))) s \<and>
     filter kept_html (concat (map content (tokenizeHTML s))) = filter kept_html s"
    by (simp add: tokenize_subseq tokenize_keeps tokenizeHTML_subseq tokenizeHTML_keeps)
  show ?thesis
    by (rule conjI [OF tokenize_scanned conjI [OF u1 conjI [OF tokenizeHTML_scanned
          conjI [OF u2 old]]]])
qed

text \<open>
  C1 as stated fails: \<open>tokenize\<close> drops a \<^verbatim>\<open>>\<close> that closes no tag, and
  \<open>tokenizeHTML\<close> drops a text run made of white space only.
\<close>

theorem tokenize_reconstruction_counterexample:
  "concat (tokenize ''a>b'') \<noteq> ''a>b'' \<and>
   concat (map content (tokenizeHTML ''<p> </p>'')) \<noteq> ''<p> </p>''"
  by (simp add: tok_eval tokh_eval)

text \<open>
  The scans of \<^verbatim>\<open>a>b\<close> and of \<^verbatim>\<open><p>Hello World</p> <\<close>: the tags and the text with its
  blank are kept whole, the lone brackets and the blank run between markup are dropped.
\<close>

theorem tokenize_reconstruction_witness:
  "scanned [(True, ''a''), (False, ''>''), (True, ''b'')] \<and>
   tokenize ''a>b'' = [''a'', ''b''] \<and>
   scanned_html [(True, ''<p>''), (True, ''Hello World''), (True, ''</p>''), (False, '' ''),
     (False, ''<'')] \<and>
   map content (tokenizeHTML ''<p>Hello World</p> <'') = [''<p>'', ''Hello World'', ''</p>''] \<and>
   filter not_angle (concat (tokenize ''a>b'')) = ''ab'' \<and>
   filter kept_html (concat (map content (tokenizeHTML ''<p>Hello World</p> <'')))
     = ''p>HelloWorld/p>''"
proof -
  let ?p = "[(True, ''a''), (False, ''>''), (True, ''b'')]"
  let ?q = "[(True, ''<p>''), (True, ''Hello World''), (True, ''</p>''), (False, '' ''),
     (False, ''<'')]"
  have a: "scanned ?p" by code_simp
  have b: "scanned_html ?q" by code_simp
  note A = tokenize_reconstruction_amended [of "''a>b''"]
  note B = tokenize_reconstruction_amended [of "''<p>Hello World</p> <''"]
  note u = conjunct1 [OF conjunct2 [OF A]]
  have "tokenize ''a>b'' = map snd (filter fst ?p)"
    by (rule mp [OF spec [OF u]]) (rule conjI [OF a], simp)
  then have t: "tokenize ''a>b'' = [''a'', ''b'']" by simp
  note v = conjunct1 [OF conjunct2 [OF conjunct2 [OF conjunct2 [OF B]]]]
  have "map content (tokenizeHTML ''<p>Hello World</p> <'') = map snd (filter fst ?q)"
    by (rule conjunct1 [OF mp [OF spec [OF v]]]) (rule conjI [OF b], simp)
  then have h: "map content (tokenizeHTML ''<p>Hello World</p> <'')
      = [''<p>'', ''Hello World'', ''</p>'']" by simp
  have f: "filter not_angle (concat (tokenize ''a>b'')) = ''ab''"
    unfolding t by (simp add: not_angle_def)
  have g: "filter kept_html (concat (map content (tokenizeHTML ''<p>Hello World</p> <'')))
      = ''p>HelloWorld/p>''"
    unfolding h by (simp add: kept_html_def is_space_def)
  from a t b h f g show ?thesis by (intro conjI)
qed
subsection \<open>C2: the two sides of an alignment\<close>

text \<open>
  C2, as amended. For every pair of input strings, the payloads of the equal and delete
  operations of \<open>diffTokens a b\<close>, concatenated in order, are the concatenation of the
  tokens of \<open>a\<close>, and the payloads of the equal and insert operations are the
  concatenation of the tokens of \<open>b\<close>; the same holds for the per-token variant of
  merged\_view.js, which returns. (By C1 these concatenations are \<open>a\<close> and \<open>b\<close> up to the
  angle brackets the tokenizer drops.)
\<close>

theorem diffTokens_coverage_amended:
  "base_side (diffTokens a b) = concat (tokenize a) \<and>
   current_side (diffTokens a b) = concat (tokenize b) \<and>
   (\<exists>ops. diffTokens_merged a b = Some ops \<and>
      base_side ops = concat (tokenize a) \<and> current_side ops = concat (tokenize b))"
proof -
  have "base_side (diffTokens a b) = concat (tokenize a)"
    "current_side (diffTokens a b) = concat (tokenize b)"
    using backtrack_blocks_sides [of "tokenize a" "tokenize b" 0 0 "[]"]
    by (simp_all add: diffTokens_def base_side_def current_side_def)
  moreover have "\<exists>ops. diffTokens_merged a b = Some ops \<and>
      base_side ops = concat (tokenize a) \<and> current_side ops = concat (tokenize b)"
    using backtrack_sides [of "tokenize a" "tokenize b" 0 0 "[]"]
    by (simp add: diffTokens_merged_def base_side_def current_side_def)
  ultimately show ?thesis by simp
qed

text \<open>
  C2 as stated fails where the tokenizer drops a character: the baseline \<^verbatim>\<open>a>b\<close> is
  not reproduced.
\<close>

theorem diffTokens_coverage_counterexample:
  "base_side (diffTokens ''a>b'' ''a>b'') \<noteq> ''a>b'' \<and>
   diffTokens_merged ''a>b'' ''a>b'' = Some [(Equal, ''a''), (Equal, ''b'')]"
  by code_simp

theorem diffTokens_coverage_witness:
  "base_side (diffTokens ''<p>A</p>'' ''<p>B</p>'') = ''<p>A</p>'' \<and>
   current_side (diffTokens ''<p>A</p>'' ''<p>B</p>'') = ''<p>B</p>'' \<and>
   (\<exists>ops. diffTokens_merged ''<p>A</p>'' ''<p>B</p>'' = Some ops \<and>
      base_side ops = ''<p>A</p>'' \<and> current_side ops = ''<p>B</p>'')"
proof -
  have "concat (tokenize ''<p>A</p>'') = ''<p>A</p>''" "concat (tokenize ''<p>B</p>'') = ''<p>B</p>''"
    by code_simp+
  with diffTokens_coverage_amended [of "''<p>A</p>''" "''<p>B</p>''"] show ?thesis by simp
qed

subsection \<open>C3: the loop of compare\_view.js throws\<close>

text \<open>
  C3. The tokenizers and both alignments are total (their definitions above come with
  their termination proofs, and \<open>backtrack_sides\<close> shows that the loop of merged\_view.js
  always ends), and so is the side-by-side loop \<open>render_loop\<close>. The side-by-side loop of
  compare\_view.js is not: on the baseline \<^verbatim>\<open>a\<close> and the current text \<^verbatim>\<open>a b\<close> the alignment
  ends with an insert, and the branch for it throws.
\<close>

theorem renderSideBySide_cv_throws:
  "diffTokens ''a'' ''a b'' = [(Equal, ''a''), (Insert, '' b'')] \<and>
   renderSideBySide_cv ''a'' ''a b'' = Inl (ReferenceError, [])"
  by code_simp

subsection \<open>C4: escaped payloads\<close>

text \<open>
  C4, as amended. In the side-by-side view every payload goes through \<open>esc\<close> before it is
  appended or wrapped. \<open>esc s\<close> is \<open>s\<close> with each \<^verbatim>\<open>&\<close> replaced by \<^verbatim>\<open>&amp;\<close>, each \<^verbatim>\<open><\<close> by
  \<^verbatim>\<open>&lt;\<close>, each \<^verbatim>\<open>>\<close> by \<^verbatim>\<open>&gt;\<close> and every other character kept; reading the entities
  back gives \<open>s\<close> again; \<open>esc s\<close> holds no \<^verbatim>\<open><\<close> and no \<^verbatim>\<open>>\<close> and each of its \<^verbatim>\<open>&\<close> starts an
  entity. Each pane holds the escaped payloads and nothing else of them: without its
  markers the baseline pane is the concatenation, in order, of \<open>esc\<close> of the payload of
  each equal and each delete operation, with \<^verbatim>\<open>&nbsp;\<close> for an insert that follows no
  delete, and the current pane is the one of \<open>esc\<close> of the payload of each equal and each
  insert operation, with \<^verbatim>\<open>&nbsp;\<close> for a delete that no insert follows (\<open>left_text\<close>,
  \<open>right_text\<close>); in each pane the only \<^verbatim>\<open><\<close> and \<^verbatim>\<open>>\<close> are the two of the opening and the two
  of the closing \<^verbatim>\<open>span\<close> marker of each change, and every \<^verbatim>\<open>&\<close> starts one of the entities
  \<^verbatim>\<open>&amp;\<close>, \<^verbatim>\<open>&lt;\<close>, \<^verbatim>\<open>&gt;\<close>, \<^verbatim>\<open>&nbsp;\<close> (\<open>escaped_state\<close>). This holds for the loop of
  src/unnamed and for every run of the loop of compare\_view.js that returns. The merged
  view is left out: it inserts the payloads as they are, to be parsed as the markup of
  the merged document.
\<close>

theorem side_by_side_escaped:
  "esc s = concat (map esc_char s) \<and> unescape (esc s) = s \<and>
   CHR ''<'' \<notin> set (esc s) \<and> CHR ''>'' \<notin> set (esc s) \<and> amps_escaped (esc s) \<and>
   escaped_state (render_loop ops initial_state) \<and>
   text_only False (baselineContent (render_loop ops initial_state)) = left_text ops \<and>
   text_only False (currentContent (render_loop ops initial_state)) = right_text ops \<and>
   (\<forall>st. render_loop_cv ops initial_state = Inr st \<longrightarrow>
      escaped_state st \<and>
      text_only False (baselineContent st) = left_text ops \<and>
      text_only False (currentContent st) = right_text ops)"
proof -
  have e: "escaped_state (render_loop ops initial_state)"
    by (simp add: escaped_loop escaped_initial)
  note t = panes_text [of ops]
  have cv: "\<forall>st. render_loop_cv ops initial_state = Inr st \<longrightarrow>
      escaped_state st \<and>
      text_only False (baselineContent st) = left_text ops \<and>
      text_only False (currentContent st) = right_text ops"
  proof (intro allI impI)
    fix st assume "render_loop_cv ops initial_state = Inr st"
    then have "st = render_loop ops initial_state" by (rule render_loop_cv_returns)
    with e t show "escaped_state st \<and>
      text_only False (baselineContent st) = left_text ops \<and>
      text_only False (currentContent st) = right_text ops" by simp
  qed
  have "esc s = concat (map esc_char s)" by (rule esc_chars)
  moreover have "unescape (esc s) = s" by (rule unescape_esc)
  moreover note esc_no_angle [of s] esc_amps [of s] e t cv
  ultimately show ?thesis by (intro conjI) (simp_all only: simp_thms)
qed

text \<open>
  C4 as stated fails for the merged view: the payload \<^verbatim>\<open><b>\<close> of an equal operation, and
  the payload \<^verbatim>\<open>&\<close> of an insert, reach the output unescaped.
\<close>

theorem merged_view_unescaped_counterexample:
  "diffTokens_merged ''<b>'' ''<b>'' = Some [(Equal, ''<b>'')] \<and>
   buildMergedHTML ''<b>'' ''<b>'' = Some ''<b>'' \<and>
   buildMergedHTML ''x'' ''x&y''
     = Some ''x<ins class=\"diff-added\">&</ins><ins class=\"diff-added\">y</ins>''"
  by code_simp

text \<open>
  A delete of \<^verbatim>\<open><a>\<close> paired with an insert of \<^verbatim>\<open>&\<close>, in both loops; and an equal \<^verbatim>\<open>a<\<close>
  before an insert of \<^verbatim>\<open>&lt;\<close> that follows no delete.
\<close>

theorem side_by_side_escaped_witness:
  "esc ''a<b>&'' = ''a&lt;b&gt;&amp;'' \<and> unescape ''a&lt;b&gt;&amp;'' = ''a<b>&'' \<and>
   escaped_state (render_loop [(Delete, ''<a>''), (Insert, ''&'')] initial_state) \<and>
   (\<exists>st. render_loop_cv [(Delete, ''<a>''), (Insert, ''&'')] initial_state = Inr st \<and>
      escaped_state st \<and>
      baselineContent st = ''<span class=\"diff-deleted\" id=\"change-0-del\">&lt;a&gt;</span>'' \<and>
      currentContent st = ''<span class=\"diff-added\" id=\"change-0-add\">&amp;</span>'' \<and>
      text_only False (baselineContent st) = ''&lt;a&gt;'' \<and>
      text_only False (currentContent st) = ''&amp;'') \<and>
   text_only False (baselineContent (render_loop [(Equal, ''a<''), (Insert, ''&lt;'')] initial_state))
     = ''a&lt;&nbsp;'' \<and>
   text_only False (currentContent (render_loop [(Equal, ''a<''), (Insert, ''&lt;'')] initial_state))
     = ''a&lt;&amp;lt;''"
proof -
  have e: "esc ''a<b>&'' = ''a&lt;b&gt;&amp;''" "esc ''<a>'' = ''&lt;a&gt;''" "esc ''&'' = ''&amp;''"
    "esc ''a<'' = ''a&lt;''" "esc ''&lt;'' = ''&amp;lt;''"
    by (simp_all add: esc_def replace_all_def)
  note A = side_by_side_escaped [of "''a<b>&''" "[(Delete, ''<a>''), (Insert, ''&'')]"]
  note B = side_by_side_escaped [of "''a<b>&''" "[(Equal, ''a<''), (Insert, ''&lt;'')]"]
  have u: "unescape ''a&lt;b&gt;&amp;'' = ''a<b>&''"
    using conjunct1 [OF conjunct2 [OF A]] unfolding e .
  have l: "left_text [(Delete, ''<a>''), (Insert, ''&'')] = ''&lt;a&gt;''"
    "right_text [(Delete, ''<a>''), (Insert, ''&'')] = ''&amp;''"
    "left_text [(Equal, ''a<''), (Insert, ''&lt;'')] = ''a&lt;&nbsp;''"
    "right_text [(Equal, ''a<''), (Insert, ''&lt;'')] = ''a&lt;&amp;lt;''"
    by (simp_all add: e)
  have cv: "render_loop_cv [(Delete, ''<a>''), (Insert, ''&'')] initial_state
      = Inr (render_loop [(Delete, ''<a>''), (Insert, ''&'')] initial_state)" by simp
  have panes:
    "baselineContent (render_loop [(Delete, ''<a>''), (Insert, ''&'')] initial_state)
       = ''<span class=\"diff-deleted\" id=\"change-0-del\">&lt;a&gt;</span>''"
    "currentContent (render_loop [(Delete, ''<a>''), (Insert, ''&'')] initial_state)
       = ''<span class=\"diff-added\" id=\"change-0-add\">&amp;</span>''"
    by (simp_all add: e render_change_def initial_state_def Let_def span_def del_id_def
        add_id_def decimal_small)
  from A B show ?thesis
    unfolding l cv by (simp add: e u panes del: render_loop.simps)
qed
subsection \<open>C5: an empty side\<close>

text \<open>
  C5, as amended. In the coalescing variant (compare\_view.js), aligning the empty string
  with \<open>b\<close> yields exactly one insert whose payload is the concatenation of the tokens of
  \<open>b\<close> when \<open>b\<close> has a token, and no operation when it has none; symmetrically one
  delete for a baseline against the empty string. In the per-token variant
  (merged\_view.js) the result is one insert per token of \<open>b\<close>, in order, and one delete
  per token of \<open>a\<close>. Two empty strings yield the empty sequence in both.
\<close>

theorem align_empties_amended:
  "diffTokens [] b = (if tokenize b = [] then [] else [(Insert, concat (tokenize b))]) \<and>
   diffTokens a [] = (if tokenize a = [] then [] else [(Delete, concat (tokenize a))]) \<and>
   diffTokens [] [] = [] \<and>
   diffTokens_merged [] b = Some (map (Pair Insert) (tokenize b)) \<and>
   diffTokens_merged a [] = Some (map (Pair Delete) (tokenize a)) \<and>
   diffTokens_merged [] [] = Some []"
  by (simp add: diffTokens_def diffTokens_merged_def tokenize_empty
      backtrack_blocks_empty_baseline backtrack_blocks_empty_current
      backtrack_empty_baseline backtrack_empty_current)

text \<open>
  C5 as stated fails: the per-token variant emits three inserts for \<^verbatim>\<open>a b\<close>, and the
  non-empty string \<^verbatim>\<open>>\<close> has no token, so that no insert is emitted for it.
\<close>

theorem align_empties_counterexample:
  "diffTokens_merged [] ''a b'' = Some [(Insert, ''a''), (Insert, '' ''), (Insert, ''b'')] \<and>
   diffTokens [] ''>'' = []"
  by code_simp

theorem align_empties_witness:
  "diffTokens [] ''a b'' = [(Insert, ''a b'')] \<and>
   diffTokens ''a b'' [] = [(Delete, ''a b'')] \<and>
   diffTokens [] [] = [] \<and>
   diffTokens_merged [] ''a b'' = Some [(Insert, ''a''), (Insert, '' ''), (Insert, ''b'')] \<and>
   diffTokens_merged ''a b'' [] = Some [(Delete, ''a''), (Delete, '' ''), (Delete, ''b'')] \<and>
   diffTokens_merged [] [] = Some []"
proof -
  have "tokenize ''a b'' = [''a'', '' '', ''b'']" by code_simp
  with align_empties_amended [of "''a b''" "''a b''"] show ?thesis by simp
qed

subsection \<open>C6: the tie-break of the backtracking\<close>




subsection \<open>C7: attribute modifications\<close>



subsection \<open>C8: every non-equal operation in one change\<close>

text \<open>
  C8. In compare\_view.js the loop throws at an insert that follows no delete, so that
  this insert is recorded in no change: on the baseline \<^verbatim>\<open>x\<close> and the current text
  \<^verbatim>\<open>x y\<close> the alignment is an equal and an insert, the loop of compare\_view.js throws with
  no change recorded, and the loop of the other file records the one insert change.
\<close>

theorem render_loop_cv_drops_insert:
  "diffTokens ''x'' ''x y'' = [(Equal, ''x''), (Insert, '' y'')] \<and>
   render_loop_cv (diffTokens ''x'' ''x y'') initial_state = Inl (ReferenceError, []) \<and>
   map change_type (allChanges (render_loop (diffTokens ''x'' ''x y'') initial_state)) = [''insert'']"
  by code_simp

text \<open>
  The loop of the other file conserves the operations: the member lists of \<open>members\<close>,
  concatenated, are the non-equal operations at their positions, each once and in order,
  and the recorded changes are, one for one, of the types of these member lists.
\<close>

theorem change_conservation:
  "concat (members 0 ops) = filter non_equal (enumerate 0 ops) \<and>
   map change_type (allChanges (render_loop ops initial_state)) = map member_type (members 0 ops)"
  using members_types [of ops initial_state 0]
  by (simp add: members_cover initial_state_def)

theorem change_conservation_witness:
  "members 0 [(Equal, ''a''), (Delete, ''b''), (Insert, ''c''), (Insert, ''d'')]
     = [[(1, (Delete, ''b'')), (2, (Insert, ''c''))], [(3, (Insert, ''d''))]] \<and>
   map change_type
     (allChanges (render_loop [(Equal, ''a''), (Delete, ''b''), (Insert, ''c''), (Insert, ''d'')]
        initial_state)) = [''change'', ''insert'']"
  using change_conservation [of "[(Equal, ''a''), (Delete, ''b''), (Insert, ''c''), (Insert, ''d'')]"]
  by (simp add: member_type_def)

subsection \<open>C9: aligning a sequence with itself\<close>

text \<open>
  C9. Aligning a token sequence with itself yields only equal operations, one per token,
  in the order of the tokens: for every token list in both variants, and so for
  \<open>diffTokens\<close> on two identical strings.
\<close>

theorem identity_diff:
  "backtrack_blocks A A 0 0 [] = map (Pair Equal) A \<and>
   backtrack A A 0 0 [] = Some (map (Pair Equal) A) \<and>
   diffTokens a a = map (Pair Equal) (tokenize a) \<and>
   diffTokens_merged a a = Some (map (Pair Equal) (tokenize a))"
  by (simp add: diffTokens_def diffTokens_merged_def backtrack_identity backtrack_blocks_identity)

theorem identity_diff_witness:
  "backtrack_blocks [''x'', ''y''] [''x'', ''y''] 0 0 [] = [(Equal, ''x''), (Equal, ''y'')] \<and>
   backtrack [''x'', ''y''] [''x'', ''y''] 0 0 [] = Some [(Equal, ''x''), (Equal, ''y'')] \<and>
   diffTokens ''<p>A</p>'' ''<p>A</p>'' = [(Equal, ''<p>''), (Equal, ''A''), (Equal, ''</p>'')] \<and>
   diffTokens_merged ''<p>A</p>'' ''<p>A</p>''
     = Some [(Equal, ''<p>''), (Equal, ''A''), (Equal, ''</p>'')]"
proof -
  have "tokenize ''<p>A</p>'' = [''<p>'', ''A'', ''</p>'']" by code_simp
  with identity_diff [of "[''x'', ''y'']" "''<p>A</p>''"] show ?thesis by simp
qed

subsection \<open>C10: the identifiers of the changes\<close>

text \<open>
  C10. For every operation sequence, the k-th change the side-by-side loop records
  (counting from 0) carries the identifiers \<^verbatim>\<open>change-k-del\<close> and \<^verbatim>\<open>change-k-add\<close>, whatever
  its type, and the identifiers of one grouping are pairwise distinct. This holds for the
  changes of the loop of the file in src/unnamed, and for the changes the loop of
  compare\_view.js has recorded when it returns or throws.
\<close>

theorem change_identifiers:
  "(let chs = allChanges (render_loop ops initial_state)
    in map (\<lambda>c. (delId c, addId c)) chs
         = map (\<lambda>k. (''change-'' @ decimal k @ ''-del'', ''change-'' @ decimal k @ ''-add''))
             [0..<length chs] \<and>
       distinct (concat (map (\<lambda>c. [delId c, addId c]) chs))) \<and>
   (let chs = recorded_changes (render_loop_cv ops initial_state)
    in map (\<lambda>c. (delId c, addId c)) chs
         = map (\<lambda>k. (''change-'' @ decimal k @ ''-del'', ''change-'' @ decimal k @ ''-add''))
             [0..<length chs] \<and>
       distinct (concat (map (\<lambda>c. [delId c, addId c]) chs)))"
proof -
  have *: "map (\<lambda>c. (delId c, addId c)) (allChanges st)
         = map (\<lambda>k. (''change-'' @ decimal k @ ''-del'', ''change-'' @ decimal k @ ''-add''))
             [0..<length (allChanges st)] \<and>
      distinct (concat (map (\<lambda>c. [delId c, addId c]) (allChanges st)))"
    if "numbered st" for st
    using that numbered_length [OF that] numbered_distinct [OF that]
    by (simp add: numbered_def id_pairs_def del_id_def add_id_def)
  have n: "numbered (render_loop xs initial_state)" for xs
    by (simp add: numbered_loop numbered_initial)
  obtain k where "recorded_changes (render_loop_cv ops initial_state)
      = allChanges (render_loop (take k ops) initial_state)"
    using render_loop_cv_recorded by blast
  with * [OF n [of ops]] * [OF n [of "take k ops"]] show ?thesis
    by (simp add: Let_def)
qed

theorem change_identifiers_witness:
  "map (\<lambda>c. (delId c, addId c))
      (allChanges (render_loop [(Delete, ''a''), (Insert, ''b''), (Insert, ''c''), (Delete, ''d'')]
         initial_state))
     = [(''change-0-del'', ''change-0-add''), (''change-1-del'', ''change-1-add''),
        (''change-2-del'', ''change-2-add'')] \<and>
   distinct [''change-0-del'', ''change-0-add'', ''change-1-del'', ''change-1-add'',
      ''change-2-del'', ''change-2-add''] \<and>
   map (\<lambda>c. (delId c, addId c))
      (recorded_changes
         (render_loop_cv [(Delete, ''a''), (Insert, ''b''), (Insert, ''c''), (Delete, ''d'')]
            initial_state))
     = [(''change-0-del'', ''change-0-add'')]"
proof -
  have ev: "allChanges (render_loop [(Delete, ''a''), (Insert, ''b''), (Insert, ''c''), (Delete, ''d'')]
         initial_state)
     = [\<lparr>change_type = ''change'', delId = ''change-0-del'', addId = ''change-0-add''\<rparr>,
        \<lparr>change_type = ''insert'', delId = ''change-1-del'', addId = ''change-1-add''\<rparr>,
        \<lparr>change_type = ''delete'', delId = ''change-2-del'', addId = ''change-2-add''\<rparr>]"
    by (simp add: render_change_def render_delete_def render_insert_def initial_state_def Let_def
        del_id_def add_id_def decimal_small)
  have cv: "recorded_changes
      (render_loop_cv [(Delete, ''a''), (Insert, ''b''), (Insert, ''c''), (Delete, ''d'')] initial_state)
     = [\<lparr>change_type = ''change'', delId = ''change-0-del'', addId = ''change-0-add''\<rparr>]"
    by (simp add: recorded_changes_def render_change_def initial_state_def Let_def
        del_id_def add_id_def decimal_small)
  from change_identifiers [of "[(Delete, ''a''), (Insert, ''b''), (Insert, ''c''), (Delete, ''d'')]"]
  show ?thesis unfolding cv ev by (simp add: upt_rec decimal_small)
qed

subsection \<open>Beyond the claims: the kept tokens are a longest common subsequence\<close>

text \<open>
  In both variants the payloads of the equal operations form a common subsequence of the
  two token lists, and no common subsequence of the two token lists is longer: the table
  holds the lengths the specification says it holds, and both backtracking loops follow
  it.
\<close>

theorem alignment_is_longest:
  "(\<exists>es. equal_payloads (diffTokens a b) = es \<and>
      subseq es (tokenize a) \<and> subseq es (tokenize b) \<and>
      (\<forall>xs. subseq xs (tokenize a) \<and> subseq xs (tokenize b) \<longrightarrow> length xs \<le> length es)) \<and>
   (\<exists>ops. diffTokens_merged a b = Some ops \<and>
      subseq (equal_payloads ops) (tokenize a) \<and> subseq (equal_payloads ops) (tokenize b) \<and>
      (\<forall>xs. subseq xs (tokenize a) \<and> subseq xs (tokenize b) \<longrightarrow>
         length xs \<le> length (equal_payloads ops)))"
proof -
  let ?A = "tokenize a" and ?B = "tokenize b"
  have bound: "length xs \<le> dp ?A ?B 0 0" if "subseq xs ?A" "subseq xs ?B" for xs
    using dp_bound [of xs 0 ?A 0 ?B] that by simp
  from backtrack_blocks_lcs [of ?A ?B 0 0 "[]"] obtain es where
    "equal_payloads (diffTokens a b) = es" "subseq es ?A" "subseq es ?B" "length es = dp ?A ?B 0 0"
    by (auto simp: diffTokens_def equal_payloads_def)
  with bound have first: "\<exists>es. equal_payloads (diffTokens a b) = es \<and>
      subseq es ?A \<and> subseq es ?B \<and>
      (\<forall>xs. subseq xs ?A \<and> subseq xs ?B \<longrightarrow> length xs \<le> length es)"
    by auto
  from backtrack_lcs [of ?A ?B 0 0 "[]"] obtain ops where
    "diffTokens_merged a b = Some ops" "subseq (equal_payloads ops) ?A"
    "subseq (equal_payloads ops) ?B" "length (equal_payloads ops) = dp ?A ?B 0 0"
    by (auto simp: diffTokens_merged_def equal_payloads_def)
  with bound have "\<exists>ops. diffTokens_merged a b = Some ops \<and>
      subseq (equal_payloads ops) ?A \<and> subseq (equal_payloads ops) ?B \<and>
      (\<forall>xs. subseq xs ?A \<and> subseq xs ?B \<longrightarrow> length xs \<le> length (equal_payloads ops))"
    by auto
  with first show ?thesis by blast
qed

theorem alignment_is_longest_witness:
  "2 \<le> length (equal_payloads (diffTokens ''<p>A</p>'' ''<p>B</p>'')) \<and>
   (\<exists>ops. diffTokens_merged ''<p>A</p>'' ''<p>B</p>'' = Some ops \<and>
      2 \<le> length (equal_payloads ops))"
proof -
  have ta: "tokenize ''<p>A</p>'' = [''<p>'', ''A'', ''</p>'']"
    and tb: "tokenize ''<p>B</p>'' = [''<p>'', ''B'', ''</p>'']"
    by code_simp+
  have sa: "subseq [''<p>'', ''</p>''] (tokenize ''<p>A</p>'')"
    and sb: "subseq [''<p>'', ''</p>''] (tokenize ''<p>B</p>'')"
    unfolding ta tb by simp_all
  from alignment_is_longest [of "''<p>A</p>''" "''<p>B</p>''"] sa sb
  have "length [''<p>'', ''</p>''] \<le> length (equal_payloads (diffTokens ''<p>A</p>'' ''<p>B</p>''))"
    and "\<exists>ops. diffTokens_merged ''<p>A</p>'' ''<p>B</p>'' = Some ops \<and>
      length [''<p>'', ''</p>''] \<le> length (equal_payloads ops)"
    by blast+
  then show ?thesis by (simp add: numeral_2_eq_2)
qed

end
